theory Spec2Isabelle
  imports Complex_Main
begin

section \<open>Data model\<close>

text \<open>
  The optimizer of \<^verbatim>\<open>anticlustering.c\<close> (the three-phase search with dynamic population
  size) keeps its instance and its working solution in process-wide arrays. The embedding
  passes them as arguments: \<open>N\<close> elements, \<open>K\<close> groups, the dissimilarity matrix \<open>D\<close>, its
  doubled copy \<open>DT\<close>, the bounds \<open>LB\<close> and \<open>UB\<close>, a partition array and the group sizes.

  A \<^verbatim>\<open>double\<close> is modelled as an exact \<^typ>\<open>real\<close>: rounding is not part of the model,
  a conversion \<^verbatim>\<open>double\<close> to \<^verbatim>\<open>int\<close> is, and so is a division by zero where one can occur.
  A two-dimensional array \<^verbatim>\<open>double**\<close> is a function of its two indices; an \<^verbatim>\<open>int\<close> array
  is a list.
\<close>

type_synonym matrix = "nat \<Rightarrow> nat \<Rightarrow> real"

text \<open>Assignment of a \<^verbatim>\<open>double\<close> to an \<^verbatim>\<open>int\<close> variable truncates toward zero.\<close>

definition trunc_int :: "real \<Rightarrow> int" where
  "trunc_int x = (if 0 \<le> x then \<lfloor>x\<rfloor> else \<lceil>x\<rceil>)"

subsection \<open>Delta matrix\<close>

text \<open>\<^verbatim>\<open>Clear_Delta_Matrix\<close>: every entry of the \<open>N \<times> K\<close> array is set to zero.\<close>

definition Clear_Delta_Matrix :: "matrix" where
  "Clear_Delta_Matrix = (\<lambda>x g. 0)"

text \<open>
  \<^verbatim>\<open>Build_Delta_Matrix\<close>: the double loop \<^verbatim>\<open>Delta_Matrix[i][p[j]] += D[i][j]\<close> over all
  \<open>i, j < N\<close>, then \<^verbatim>\<open>f\<close> as half the sum of \<^verbatim>\<open>Delta_Matrix[i][p[i]]\<close>. (The table
  \<^verbatim>\<open>Delta\<close> filled in between is read by no routine modelled here and is left out.)
\<close>

definition dm_add :: "matrix \<Rightarrow> nat \<Rightarrow> nat \<Rightarrow> real \<Rightarrow> matrix" where
  "dm_add DM i g d = DM(i := (DM i)(g := DM i g + d))"

definition Build_Delta_Matrix_DM :: "nat \<Rightarrow> matrix \<Rightarrow> nat list \<Rightarrow> matrix" where
  "Build_Delta_Matrix_DM N D p =
     fold (\<lambda>i DM. fold (\<lambda>j DM. dm_add DM i (p ! j) (D i j)) [0..<N] DM) [0..<N]
       Clear_Delta_Matrix"

definition Build_Delta_Matrix_f :: "nat \<Rightarrow> matrix \<Rightarrow> nat list \<Rightarrow> real" where
  "Build_Delta_Matrix_f N DM p = fold (\<lambda>i f. f + DM i (p ! i)) [0..<N] 0 / 2"

definition Build_Delta_Matrix :: "nat \<Rightarrow> matrix \<Rightarrow> nat list \<Rightarrow> matrix \<times> real" where
  "Build_Delta_Matrix N D p =
     (let DM = Build_Delta_Matrix_DM N D p in (DM, Build_Delta_Matrix_f N DM p))"

text \<open>
  \<^verbatim>\<open>One_Move_Update_Delta_Matrix1(i, g0, g1)\<close>: for every \<open>j \<noteq> i\<close>, subtract \<open>D[i][j]\<close>
  from column \<open>g0\<close> of row \<open>j\<close> and add it to column \<open>g1\<close>.
\<close>

definition One_Move_Update_Delta_Matrix1 ::
  "nat \<Rightarrow> matrix \<Rightarrow> matrix \<Rightarrow> nat \<Rightarrow> nat \<Rightarrow> nat \<Rightarrow> matrix" where
  "One_Move_Update_Delta_Matrix1 N D DM i g0 g1 =
     fold (\<lambda>j DM. if j \<noteq> i then dm_add (dm_add DM j g0 (- D i j)) j g1 (D i j) else DM)
       [0..<N] DM"

subsection \<open>Offspring acceptance\<close>

text \<open>
  \<^verbatim>\<open>FitRadioAndDis\<close> counts the pairs \<open>i < j\<close> that are together in one partition and apart
  in the other, then returns
  \<^verbatim>\<open>cost1 / cost2 + 0.05 * (count / (N * N) * K)\<close>. The parenthesis is evaluated on
  \<^verbatim>\<open>int\<close> operands, so \<^verbatim>\<open>/\<close> there is the integer quotient. The division of the two costs
  is a \<^verbatim>\<open>double\<close> division, which yields an infinity or a NaN for a zero divisor.
\<close>

datatype dval = Finite real | PosInf | NegInf | NaN

definition ddiv :: "real \<Rightarrow> real \<Rightarrow> dval" where
  "ddiv a b =
     (if b \<noteq> 0 then Finite (a / b)
      else if 0 < a then PosInf else if a < 0 then NegInf else NaN)"

fun dadd :: "dval \<Rightarrow> real \<Rightarrow> dval" where
  "dadd (Finite a) b = Finite (a + b)"
| "dadd PosInf b = PosInf"
| "dadd NegInf b = NegInf"
| "dadd NaN b = NaN"

fun dgreater :: "dval \<Rightarrow> real \<Rightarrow> bool" where
  "dgreater (Finite a) b = (b < a)"
| "dgreater PosInf b = True"
| "dgreater NegInf b = False"
| "dgreater NaN b = False"

definition disagree :: "nat list \<Rightarrow> nat list \<Rightarrow> nat \<Rightarrow> nat \<Rightarrow> bool" where
  "disagree partition1 partition2 i j =
     (partition1 ! i = partition1 ! j \<and> partition2 ! i \<noteq> partition2 ! j \<or>
      partition1 ! i \<noteq> partition1 ! j \<and> partition2 ! i = partition2 ! j)"

definition FitRadioAndDis_count :: "nat \<Rightarrow> nat list \<Rightarrow> nat list \<Rightarrow> int" where
  "FitRadioAndDis_count N partition1 partition2 =
     fold (\<lambda>i c. fold (\<lambda>j c. if disagree partition1 partition2 i j then c + 1 else c)
                    [i + 1..<N] c)
       [0..<N - 1] 0"

definition FitRadioAndDis ::
  "nat \<Rightarrow> nat \<Rightarrow> nat list \<Rightarrow> nat list \<Rightarrow> real \<Rightarrow> real \<Rightarrow> dval" where
  "FitRadioAndDis N K partition1 partition2 cost1 cost2 =
     (let count = FitRadioAndDis_count N partition1 partition2
      in dadd (ddiv cost1 cost2)
           (5 / 100 * real_of_int (count div (int N * int N) * int K)))"

text \<open>
  The acceptance test of \<^verbatim>\<open>SearchAlgorithm\<close> after crossover and local search: the offspring
  replaces the parent when its cost is at least the parent's, and otherwise when
  \<^verbatim>\<open>FitRadioAndDis(offspring, parent, ...) > 1\<close>.
\<close>

definition accept_offspring ::
  "nat \<Rightarrow> nat \<Rightarrow> nat list \<Rightarrow> real \<Rightarrow> nat list \<Rightarrow> real \<Rightarrow> bool" where
  "accept_offspring N K offs_p offs_cost pop_p pop_cost =
     (if pop_cost \<le> offs_cost then True
      else dgreater (FitRadioAndDis N K offs_p pop_p offs_cost pop_cost) 1)"

text \<open>
  The score as the specification words it, with a real quotient of the disagreement count
  by \<open>N\<^sup>2\<close>; it is compared with the code's value below.
\<close>

definition spec_score :: "nat \<Rightarrow> nat \<Rightarrow> nat list \<Rightarrow> nat list \<Rightarrow> real \<Rightarrow> real \<Rightarrow> real" where
  "spec_score N K child parent child_cost parent_cost =
     child_cost / parent_cost +
     5 / 100 * (real_of_int (FitRadioAndDis_count N child parent) / (real N * real N)) * real K"

subsection \<open>Marking the least cohesive member of a group\<close>

text \<open>
  The first loop of a round of \<^verbatim>\<open>DirectPerturbation\<close>, for one group \<open>k\<close>: \<^verbatim>\<open>Minsd\<close>
  and \<^verbatim>\<open>MinE\<close> are \<^verbatim>\<open>int\<close> variables, starting at 99999999 and 0; a member \<open>i\<close> of the
  group with \<^verbatim>\<open>Delta_Matrix[i][k] < Minsd\<close> becomes \<^verbatim>\<open>MinE\<close>, and its value, converted to
  \<^verbatim>\<open>int\<close>, becomes \<^verbatim>\<open>Minsd\<close>. The result is stored in \<^verbatim>\<open>Rd[k]\<close>.
\<close>

definition DP_scan_step :: "matrix \<Rightarrow> nat list \<Rightarrow> nat \<Rightarrow> nat \<Rightarrow> int \<times> nat \<Rightarrow> int \<times> nat" where
  "DP_scan_step DM p k i acc =
     (case acc of (Minsd, MinE) \<Rightarrow>
        if p ! i = k then
          (if DM i k < real_of_int Minsd then (trunc_int (DM i k), i) else (Minsd, MinE))
        else (Minsd, MinE))"

definition DP_Rd :: "nat \<Rightarrow> matrix \<Rightarrow> nat list \<Rightarrow> nat \<Rightarrow> nat" where
  "DP_Rd N DM p k = snd (fold (DP_scan_step DM p k) [0..<N] (99999999, 0))"

definition DP_mark ::
  "nat \<Rightarrow> nat \<Rightarrow> int list \<Rightarrow> matrix \<Rightarrow> nat list \<Rightarrow> int list \<Rightarrow>
     int list \<times> int list \<times> int list \<times> int" where
  "DP_mark N K LB DM p SizeG =
     fold (\<lambda>k (Rd, SizeG, UnderLB, number).
             let Rd = Rd[k := int (DP_Rd N DM p k)];
                 SizeG = SizeG[k := SizeG ! k - 1]
             in if SizeG ! k < LB ! k then (Rd, SizeG, UnderLB[k := 1], number + 1)
                else (Rd, SizeG, UnderLB, number))
       [0..<K] (replicate K (- 1), SizeG, replicate K 0, 0)"

subsection \<open>Loading an instance\<close>

text \<open>
  \<^verbatim>\<open>inputing\<close> reads the instance file. The model starts after tokenisation: whether the
  file opened, the element count, the group count, the tag word (\<open>None\<close> when the end of
  the file was hit while reading it), the pairs of bounds and the edge triples. The counts
  are taken as non-negative. Every \<^verbatim>\<open>exit(0)\<close> of the source is an error value.
\<close>

datatype load_error = Open_Failed | Unexpected_EOF | Node_Error int int

record instance_file =
  if_opens :: bool
  if_N :: nat
  if_K :: nat
  if_tag :: "string option"
  if_bounds :: "(int \<times> int) list"
  if_edges :: "(int \<times> int \<times> real) list"

record instance_data =
  inst_N :: nat
  inst_K :: nat
  inst_LB :: "int list"
  inst_UB :: "int list"
  inst_D :: matrix
  inst_DT :: matrix

definition mat_set :: "matrix \<Rightarrow> nat \<Rightarrow> nat \<Rightarrow> real \<Rightarrow> matrix" where
  "mat_set M i j v = M(i := (M i)(j := v))"

text \<open>
  The edge loop: an endpoint outside \<open>[0, N)\<close> stops the program; for \<open>x1 \<noteq> x2\<close> the
  source stores \<^verbatim>\<open>D[x2][x1] = d; D[x1][x2] = D[x2][x1]\<close> and the same with \<open>2.0 * d\<close>
  in \<^verbatim>\<open>DT\<close>.
\<close>

fun read_edges ::
  "nat \<Rightarrow> (int \<times> int \<times> real) list \<Rightarrow> matrix \<Rightarrow> matrix \<Rightarrow> load_error + (matrix \<times> matrix)" where
  "read_edges N [] D DT = Inr (D, DT)"
| "read_edges N ((x1, x2, d) # es) D DT =
     (if x1 < 0 \<or> x2 < 0 \<or> int N \<le> x1 \<or> int N \<le> x2 then Inl (Node_Error x1 x2)
      else if x1 \<noteq> x2 then
        (let D1 = mat_set D (nat x2) (nat x1) d;
             D2 = mat_set D1 (nat x1) (nat x2) (D1 (nat x2) (nat x1));
             DT1 = mat_set DT (nat x2) (nat x1) (2 * d);
             DT2 = mat_set DT1 (nat x1) (nat x2) (DT1 (nat x2) (nat x1))
         in read_edges N es D2 DT2)
      else read_edges N es D DT)"

text \<open>
  The header: for \<open>N = 3000\<close> the source fixes \<open>K = 50\<close> and the bounds 48 and 72; otherwise
  it reads \<open>K\<close> and the tag, and for the tags \<^verbatim>\<open>ds\<close> and \<^verbatim>\<open>ss\<close> reads \<open>K\<close> pairs of bounds
  (for another tag the bound arrays are never allocated: the empty list here). No test
  on the bounds is made.
\<close>

definition read_header :: "instance_file \<Rightarrow> load_error + (nat \<times> int list \<times> int list)" where
  "read_header fl =
     (if if_N fl = 3000 then Inr (50, replicate 50 48, replicate 50 72)
      else (case if_tag fl of
              None \<Rightarrow> Inl Unexpected_EOF
            | Some tag \<Rightarrow>
                if tag = ''ds'' \<or> tag = ''ss'' then
                  Inr (if_K fl, map fst (take (if_K fl) (if_bounds fl)),
                       map snd (take (if_K fl) (if_bounds fl)))
                else Inr (if_K fl, [], [])))"

definition inputing :: "instance_file \<Rightarrow> load_error + instance_data" where
  "inputing fl =
     (if \<not> if_opens fl then Inl Open_Failed
      else (case read_header fl of
              Inl e \<Rightarrow> Inl e
            | Inr (K, LB, UB) \<Rightarrow>
                (case read_edges (if_N fl) (if_edges fl) (\<lambda>i j. 0) (\<lambda>i j. 0) of
                   Inl e \<Rightarrow> Inl e
                 | Inr (D, DT) \<Rightarrow>
                     Inr \<lparr>inst_N = if_N fl, inst_K = K, inst_LB = LB, inst_UB = UB,
                          inst_D = D, inst_DT = DT\<rparr>)))"

subsection \<open>Checking a solution\<close>





subsection \<open>Local search\<close>

text \<open>
  A \<^verbatim>\<open>do { ... } while (c)\<close> loop: the body runs, and runs again as long as the condition
  holds afterwards. A loop that never leaves has the value \<open>None\<close>.
\<close>

partial_function (option) do_while :: "('s \<Rightarrow> 's) \<Rightarrow> ('s \<Rightarrow> bool) \<Rightarrow> 's \<Rightarrow> 's option" where
  "do_while body again s = (let s' = body s in if again s' then do_while body again s' else Some s')"

text \<open>
  The working state of \<^verbatim>\<open>RandLS\<close>: the global partition \<^verbatim>\<open>p\<close>, the caller's
  \<^verbatim>\<open>SizeGroup\<close>, the global \<^verbatim>\<open>Delta_Matrix\<close> and cost \<^verbatim>\<open>f\<close>, and the local \<^verbatim>\<open>Flag\<close>.
\<close>

record ls_state =
  ls_p :: "nat list"
  ls_SizeGroup :: "int list"
  ls_DM :: matrix
  ls_f :: real
  ls_Flag :: int

text \<open>
  The body of the first double loop, for one element \<open>v\<close> and one group \<open>g\<close>: a feasible
  relocation whose gain \<^verbatim>\<open>delt\<close> exceeds 0.0001 is carried out at once.
\<close>

definition LS_move ::
  "matrix \<Rightarrow> nat \<Rightarrow> int list \<Rightarrow> int list \<Rightarrow> nat \<Rightarrow> nat \<Rightarrow> ls_state \<Rightarrow> ls_state" where
  "LS_move D N LB UB v g s =
     (let p = ls_p s; SG = ls_SizeGroup s; DM = ls_DM s
      in if p ! v \<noteq> g \<and> LB ! (p ! v) < SG ! (p ! v) \<and> SG ! g < UB ! g then
           (let delt = DM v g - DM v (p ! v)
            in if 1 / 10000 < delt then
                 (let old_g = p ! v;
                      DM1 = One_Move_Update_Delta_Matrix1 N D DM v old_g g;
                      SG1 = SG[old_g := SG ! old_g - 1];
                      SG2 = SG1[g := SG1 ! g + 1]
                  in s\<lparr>ls_p := p[v := g], ls_SizeGroup := SG2, ls_DM := DM1,
                        ls_f := ls_f s + delt, ls_Flag := 1\<rparr>)
               else s)
         else s)"







subsection \<open>Light perturbation\<close>

text \<open>
  The neighbour catalogue. A \<^verbatim>\<open>Neighborhood\<close> entry carries a type tag and, for type 1, an
  element \<open>v\<close> and a group \<open>g\<close>, for type 2, two elements \<open>x\<close> and \<open>y\<close>; only the fields of
  its type are ever written or read. \<^verbatim>\<open>BuildNeighbors\<close> lists all \<open>N \<sqdot> K\<close> relocations,
  then all pairs \<open>x < y\<close>.
\<close>

datatype Neighborhood = Relocation nat nat | Exchange nat nat


text \<open>
  \<^verbatim>\<open>rand()\<close> is modelled by the sequence \<open>rnd\<close> of the values it returns, and the number of
  calls made so far. The loop state of \<^verbatim>\<open>StrongPerturbation\<close>: the global partition, the
  caller's sizes, the local \<^verbatim>\<open>delt\<close> (not initialised in the source, and never read; it
  starts at 0 here), the count of applied moves and the number of draws.
\<close>

record sp_state =
  sp_p :: "nat list"
  sp_SizeGroup :: "int list"
  sp_delt :: real
  sp_count :: int
  sp_draws :: nat

text \<open>
  The body of the \<^verbatim>\<open>do\<close> loop: draw an entry of the catalogue; apply a relocation when it
  changes the group, the source group is above its lower bound and the target below its
  upper bound; apply an exchange when the two groups differ. \<^verbatim>\<open>delt\<close> is computed from
  \<^verbatim>\<open>Delta_Matrix\<close> and stored, nothing else.
\<close>

definition SP_body ::
  "(nat \<Rightarrow> nat) \<Rightarrow> Neighborhood list \<Rightarrow> matrix \<Rightarrow> matrix \<Rightarrow> int list \<Rightarrow> int list \<Rightarrow> nat \<Rightarrow>
     sp_state \<Rightarrow> sp_state" where
  "SP_body rnd Neighbors D DM LB UB NumberNeighbors s0 =
     (let cur_index = rnd (sp_draws s0) mod NumberNeighbors;
          s = s0\<lparr>sp_draws := sp_draws s0 + 1\<rparr>;
          p = sp_p s;
          SG = sp_SizeGroup s
      in case Neighbors ! cur_index of
           Relocation v g \<Rightarrow>
             if p ! v \<noteq> g \<and> LB ! (p ! v) < SG ! (p ! v) \<and> SG ! g < UB ! g then
               (let delt = DM v g - DM v (p ! v);
                    old_g = p ! v;
                    SG1 = SG[old_g := SG ! old_g - 1];
                    SG2 = SG1[g := SG1 ! g + 1]
                in s\<lparr>sp_p := p[v := g], sp_SizeGroup := SG2, sp_delt := delt,
                      sp_count := sp_count s + 1\<rparr>)
             else s
         | Exchange x y \<Rightarrow>
             if p ! x \<noteq> p ! y then
               (let delt = (DM x (p ! y) - DM x (p ! x)) + (DM y (p ! x) - DM y (p ! y))
                             - 2 * D x y;
                    p1 = p[x := p ! y];
                    p2 = p1[y := p ! x]
                in s\<lparr>sp_p := p2, sp_delt := delt, sp_count := sp_count s + 1\<rparr>)
             else s)"

text \<open>
  \<^verbatim>\<open>StrongPerturbation(L, partition, SizeGroup)\<close>: the loop runs while \<^verbatim>\<open>count < theta\<close>,
  tested after the body. With an empty catalogue \<^verbatim>\<open>rand() % NumberNeighbors\<close> divides by
  zero: no result. \<open>StrongPerturbation_run\<close> gives the final loop state, \<open>StrongPerturbation\<close>
  what the caller sees of it.
\<close>

definition StrongPerturbation_run ::
  "(nat \<Rightarrow> nat) \<Rightarrow> Neighborhood list \<Rightarrow> matrix \<Rightarrow> matrix \<Rightarrow> nat \<Rightarrow> nat \<Rightarrow> int list \<Rightarrow> int list \<Rightarrow>
     int \<Rightarrow> nat list \<Rightarrow> int list \<Rightarrow> sp_state option" where
  "StrongPerturbation_run rnd Neighbors D DM N K LB UB L part SizeGroup =
     (let NumberNeighbors = N * (N - 1) div 2 + N * K
      in if NumberNeighbors = 0 then None
         else do_while (SP_body rnd Neighbors D DM LB UB NumberNeighbors)
                (\<lambda>s. sp_count s < L)
                \<lparr>sp_p = part, sp_SizeGroup = SizeGroup, sp_delt = 0, sp_count = 0,
                  sp_draws = 0\<rparr>)"

definition StrongPerturbation ::
  "(nat \<Rightarrow> nat) \<Rightarrow> Neighborhood list \<Rightarrow> matrix \<Rightarrow> matrix \<Rightarrow> nat \<Rightarrow> nat \<Rightarrow> int list \<Rightarrow> int list \<Rightarrow>
     int \<Rightarrow> nat list \<Rightarrow> int list \<Rightarrow> (nat list \<times> int list) option" where
  "StrongPerturbation rnd Neighbors D DM N K LB UB L part SizeGroup =
     map_option (\<lambda>s. (sp_p s, sp_SizeGroup s))
       (StrongPerturbation_run rnd Neighbors D DM N K LB UB L part SizeGroup)"

subsection \<open>Notions of the specification\<close>

text \<open>
  The instance invariant of the specification: \<open>D\<close> is symmetric with a zero diagonal
  (\<^verbatim>\<open>inputing\<close> establishes it), and \<open>DT\<close> is twice \<open>D\<close>.
\<close>

definition dissim :: "nat \<Rightarrow> matrix \<Rightarrow> bool" where
  "dissim N D \<longleftrightarrow> (\<forall>i<N. \<forall>j<N. D i j = D j i) \<and> (\<forall>i<N. D i i = 0)"

definition doubled :: "nat \<Rightarrow> matrix \<Rightarrow> matrix \<Rightarrow> bool" where
  "doubled N D DT \<longleftrightarrow> (\<forall>i<N. \<forall>j<N. DT i j = 2 * D i j)"

text \<open>
  The delta matrix entry as the specification defines it, the sum of \<open>D i j\<close> over the
  members \<open>j\<close> of group \<open>g\<close>, and the objective as a sum over pairs.
\<close>

definition group_sum :: "nat \<Rightarrow> matrix \<Rightarrow> nat list \<Rightarrow> nat \<Rightarrow> nat \<Rightarrow> real" where
  "group_sum N D p i g = (\<Sum>j<N. if p ! j = g then D i j else 0)"




text \<open>
  The size invariant of the specification for a partition and its size array, with the
  arrays well formed: the sizes sum to \<open>N\<close> and each lies within its bounds.
\<close>

definition feasible :: "nat \<Rightarrow> nat \<Rightarrow> int list \<Rightarrow> int list \<Rightarrow> nat list \<Rightarrow> int list \<Rightarrow> bool" where
  "feasible N K LB UB p S \<longleftrightarrow>
     length p = N \<and> (\<forall>i<N. p ! i < K) \<and> length S = K \<and> sum_list S = int N \<and>
     (\<forall>g<K. LB ! g \<le> S ! g \<and> S ! g \<le> UB ! g)"

subsection \<open>Notions used in the proofs\<close>


definition move_cond :: "int list \<Rightarrow> int list \<Rightarrow> nat \<Rightarrow> nat \<Rightarrow> ls_state \<Rightarrow> bool" where
  "move_cond LB UB v g s \<longleftrightarrow>
     ls_p s ! v \<noteq> g \<and> LB ! (ls_p s ! v) < ls_SizeGroup s ! (ls_p s ! v) \<and>
     ls_SizeGroup s ! g < UB ! g \<and> 1 / 10000 < ls_DM s v g - ls_DM s v (ls_p s ! v)"


definition flagged :: "ls_state \<Rightarrow> bool" where
  "flagged s \<longleftrightarrow> ls_Flag s = 1"

definition LS_moves :: "matrix \<Rightarrow> nat \<Rightarrow> nat \<Rightarrow> int list \<Rightarrow> int list \<Rightarrow> ls_state \<Rightarrow> ls_state" where
  "LS_moves D N K LB UB s =
     fold (\<lambda>v s. fold (\<lambda>g s. LS_move D N LB UB v g s) [0..<K] s) [0..<N] s"




text \<open>Two perturbation states that agree on everything but \<^verbatim>\<open>delt\<close>.\<close>

definition sp_same :: "sp_state \<Rightarrow> sp_state \<Rightarrow> bool" where
  "sp_same a b \<longleftrightarrow>
     sp_p a = sp_p b \<and> sp_SizeGroup a = sp_SizeGroup b \<and> sp_count a = sp_count b \<and>
     sp_draws a = sp_draws b"


text \<open>A small instance for concrete runs: two elements at distance 1.\<close>

definition example_D :: matrix where
  "example_D = (\<lambda>i j. if (i = 0 \<and> j = 1) \<or> (i = 1 \<and> j = 0) then 1 else 0)"

subsection \<open>Crossover\<close>

text \<open>
  \<^verbatim>\<open>Build_GroupDiv_For_Crossover\<close>: for every ordered pair \<open>(i, j)\<close> of elements of one
  group, \<open>D[i][j]\<close> is added to the diversity of that group. The array \<^verbatim>\<open>gDiv\<close> is a
  function of the group index.
\<close>

definition Build_GroupDiv_For_Crossover :: "nat \<Rightarrow> matrix \<Rightarrow> nat list \<Rightarrow> nat \<Rightarrow> real" where
  "Build_GroupDiv_For_Crossover N D p =
     fold (\<lambda>i gDiv. fold (\<lambda>j gDiv. if p ! i = p ! j then gDiv(p ! i := gDiv (p ! i) + D i j)
                                   else gDiv) [0..<N] gDiv)
       [0..<N] (\<lambda>i. 0)"

text \<open>
  \<^verbatim>\<open>Crossover\<close> draws from \<^verbatim>\<open>rand()\<close>. The generator is a sequence \<open>rnd\<close> of its
  successive values, and every state carries the number of values drawn so far.

  Three loops of the function have the shape
  \<^verbatim>\<open>do { i = (i + 1) % m; } while (!stop(i));\<close>. Since \<open>i\<close> runs through the residues
  cyclically, the loop ends within \<open>m\<close> steps or never; \<open>cyc_scan m stop m i\<close> is its result,
  \<open>None\<close> when it never ends.
\<close>

fun cyc_scan :: "nat \<Rightarrow> (nat \<Rightarrow> bool) \<Rightarrow> nat \<Rightarrow> nat \<Rightarrow> nat option" where
  "cyc_scan 0 stop m i = None"
| "cyc_scan (Suc fuel) stop m i =
     (let i' = (i + 1) mod m in if stop i' then Some i' else cyc_scan fuel stop m i')"

text \<open>
  The arrays and scalars alive across the \<open>K\<close> iterations of the first loop of
  \<^verbatim>\<open>Crossover\<close>. \<^verbatim>\<open>sc\<close> is the child (\<open>-1\<close>: not assigned), \<^verbatim>\<open>vEle\<close> the pool of free
  elements (\<open>-1\<close>: taken), \<^verbatim>\<open>ub\<close> the capacity of the child groups still open (\<open>-1\<close>: closed),
  \<^verbatim>\<open>p1\<close> and \<^verbatim>\<open>p2\<close> the parents with the inherited elements struck out (\<open>-1\<close>). The
  locals \<^verbatim>\<open>g\<close> and \<^verbatim>\<open>pickG\<close> are declared without a value and keep their value from one
  iteration to the next, so they are part of the state.
\<close>

record cx_state =
  cx_sc :: "int list"
  cx_scSizeGroup :: "int list"
  cx_vEle :: "int list"
  cx_ub :: "int list"
  cx_p1 :: "int list"
  cx_p2 :: "int list"
  cx_gDiv_p1 :: "nat \<Rightarrow> real"
  cx_gDiv_p2 :: "nat \<Rightarrow> real"
  cx_g :: int
  cx_pickG :: int
  cx_draws :: nat

text \<open>
  The group of largest diversity. \<^verbatim>\<open>gDivMax\<close> is an \<^verbatim>\<open>int\<close>: the comparison is made in
  \<^verbatim>\<open>double\<close>, the assignment truncates. \<^verbatim>\<open>g\<close> keeps its previous value when no diversity
  exceeds \<open>-9999\<close>.
\<close>

definition CX_pick_group :: "(nat \<Rightarrow> real) \<Rightarrow> nat \<Rightarrow> int \<Rightarrow> int" where
  "CX_pick_group gDiv K g =
     snd (fold (\<lambda>j (gDivMax, g). if real_of_int gDivMax < gDiv j then (trunc_int (gDiv j), int j)
                                  else (gDivMax, g))
            [0..<K] (- 9999, g))"

text \<open>
  When no open group can hold the \<^verbatim>\<open>lengthSE\<close> selected elements: the open group with the
  least shortfall \<^verbatim>\<open>lengthSE - ub[j]\<close>, starting from \<^verbatim>\<open>num = 999999\<close>. \<^verbatim>\<open>pickG\<close> keeps
  its previous value when no shortfall is below that number.
\<close>

definition CX_shortfall :: "int list \<Rightarrow> nat \<Rightarrow> nat \<Rightarrow> int \<Rightarrow> int \<times> int" where
  "CX_shortfall ub K lengthSE pickG =
     fold (\<lambda>j (num, pickG). if ub ! j \<noteq> - 1 \<and> int lengthSE - ub ! j < num
                               then (int lengthSE - ub ! j, int j) else (num, pickG))
       [0..<K] (999999, pickG)"

text \<open>
  The loop \<^verbatim>\<open>while (count < lengthSE - num)\<close>: a random start, a cyclic scan for an entry of
  \<^verbatim>\<open>SelectEle\<close> not yet taken, and the element found goes to group \<^verbatim>\<open>pickG\<close>.
  \<^verbatim>\<open>SelectEleTemp\<close> is the list of the elements taken, \<^verbatim>\<open>count\<close> its length.
  \<^verbatim>\<open>rand() % lengthSE\<close> with \<^verbatim>\<open>lengthSE = 0\<close> is undefined: \<open>None\<close>.
\<close>

function CX_trim ::
  "(nat \<Rightarrow> nat) \<Rightarrow> nat \<Rightarrow> int \<Rightarrow> int \<Rightarrow> int list \<times> nat list \<times> int list \<times> int list \<times> nat \<Rightarrow>
     (int list \<times> nat list \<times> int list \<times> int list \<times> nat) option" where
  "CX_trim rnd lengthSE target pickG (SelectEle, SelectEleTemp, sc, vEle, draws) =
     (if int (length SelectEleTemp) < target then
        (if lengthSE = 0 then None
         else (case cyc_scan lengthSE (\<lambda>i. SelectEle ! i \<noteq> - 1) lengthSE
                       (rnd draws mod lengthSE) of
                 None \<Rightarrow> None
               | Some pickV \<Rightarrow>
                   (let e = nat (SelectEle ! pickV)
                    in CX_trim rnd lengthSE target pickG
                         (SelectEle[pickV := - 1], SelectEleTemp @ [e], sc[e := pickG],
                          vEle[e := - 1], draws + 1))))
      else Some (SelectEle, SelectEleTemp, sc, vEle, draws))"
  by pat_completeness auto
termination
  by (relation "measure (\<lambda>(rnd, lengthSE, target, pickG, SelectEle, SelectEleTemp, sc, vEle, draws).
        nat (target - int (length SelectEleTemp)))") auto

text \<open>
  One branch of the coin, for the parent \<open>pSel\<close> with diversities \<open>gDiv\<close> (the two branches
  of the source differ in nothing else): choose the parent group \<^verbatim>\<open>g\<close>, collect its
  elements, collect the open child groups that can hold them all, then either hand a part of
  the elements to the group of least shortfall or all of them to a random group that fits.
  The result is \<^verbatim>\<open>SelectEleTemp\<close> (of length \<^verbatim>\<open>lengthSE\<close>) and the new state.
\<close>

definition CX_select ::
  "(nat \<Rightarrow> nat) \<Rightarrow> nat \<Rightarrow> nat \<Rightarrow> (nat \<Rightarrow> real) \<Rightarrow> int list \<Rightarrow> cx_state \<Rightarrow>
     (nat list \<times> cx_state) option" where
  "CX_select rnd N K gDiv pSel s =
     (let g = CX_pick_group gDiv K (cx_g s);
          SelectEle = map int (filter (\<lambda>j. pSel ! j = g) [0..<N]);
          lengthSE = length SelectEle;
          SelGroup = filter (\<lambda>j. cx_ub s ! j \<noteq> - 1 \<and> int lengthSE \<le> cx_ub s ! j) [0..<K];
          lengthSG = length SelGroup
      in if lengthSG = 0 then
           (case CX_shortfall (cx_ub s) K lengthSE (cx_pickG s) of
              (num, pickG) \<Rightarrow>
                (case CX_trim rnd lengthSE (int lengthSE - num) pickG
                        (SelectEle, [], cx_sc s, cx_vEle s, cx_draws s) of
                   None \<Rightarrow> None
                 | Some (SelectEle', SelectEleTemp, sc, vEle, draws) \<Rightarrow>
                     Some (SelectEleTemp,
                           s\<lparr>cx_g := g, cx_pickG := pickG, cx_sc := sc, cx_vEle := vEle,
                             cx_draws := draws\<rparr>)))
         else
           (let pickG = int (SelGroup ! (rnd (cx_draws s) mod lengthSG));
                sc = fold (\<lambda>e sc. sc[nat e := pickG]) SelectEle (cx_sc s);
                vEle = fold (\<lambda>e vEle. vEle[nat e := - 1]) SelectEle (cx_vEle s)
            in Some (map nat SelectEle,
                     s\<lparr>cx_g := g, cx_pickG := pickG, cx_sc := sc, cx_vEle := vEle,
                       cx_draws := cx_draws s + 1\<rparr>)))"

text \<open>
  The loop after the two branches: the elements handed over leave both parents, and the
  diversities of their parent groups are reduced by their delta matrix entries. A parent
  entry \<open>-1\<close> used as an index is outside the arrays: \<open>None\<close>.
\<close>

fun CX_retire :: "matrix \<Rightarrow> matrix \<Rightarrow> nat list \<Rightarrow> cx_state \<Rightarrow> cx_state option" where
  "CX_retire DM_p1 DM_p2 [] s = Some s"
| "CX_retire DM_p1 DM_p2 (e # es) s =
     (if cx_p1 s ! e < 0 \<or> cx_p2 s ! e < 0 then None
      else (let h1 = nat (cx_p1 s ! e); h2 = nat (cx_p2 s ! e)
            in CX_retire DM_p1 DM_p2 es
                 (s\<lparr>cx_gDiv_p1 := (cx_gDiv_p1 s)(h1 := cx_gDiv_p1 s h1 - DM_p1 e h1),
                    cx_gDiv_p2 := (cx_gDiv_p2 s)(h2 := cx_gDiv_p2 s h2 - DM_p2 e h2),
                    cx_p1 := (cx_p1 s)[e := - 1], cx_p2 := (cx_p2 s)[e := - 1]\<rparr>)))"

text \<open>
  One iteration of the first loop: the coin \<^verbatim>\<open>rand() / (RAND_MAX + 1.0) < 0.5\<close>, the chosen
  branch, the loop above, then \<^verbatim>\<open>ub[pickG] = -1\<close> and \<^verbatim>\<open>scSizeGroup[pickG] = lengthSE\<close>.
  A \<^verbatim>\<open>pickG\<close> outside \<open>[0, K)\<close> writes outside the arrays: \<open>None\<close>.
\<close>

definition CX_iter ::
  "(nat \<Rightarrow> nat) \<Rightarrow> nat \<Rightarrow> nat \<Rightarrow> nat \<Rightarrow> matrix \<Rightarrow> matrix \<Rightarrow> cx_state \<Rightarrow> cx_state option" where
  "CX_iter rnd RAND_MAX N K DM_p1 DM_p2 s0 =
     (let coin = (real (rnd (cx_draws s0)) / (real RAND_MAX + 1) < 1 / 2);
          s = s0\<lparr>cx_draws := cx_draws s0 + 1\<rparr>
      in case (if coin then CX_select rnd N K (cx_gDiv_p1 s) (cx_p1 s) s
               else CX_select rnd N K (cx_gDiv_p2 s) (cx_p2 s) s) of
           None \<Rightarrow> None
         | Some (SelectEleTemp, s1) \<Rightarrow>
             (case CX_retire DM_p1 DM_p2 SelectEleTemp s1 of
                None \<Rightarrow> None
              | Some s2 \<Rightarrow>
                  if cx_pickG s2 < 0 \<or> int K \<le> cx_pickG s2 then None
                  else Some (s2\<lparr>cx_ub := (cx_ub s2)[nat (cx_pickG s2) := - 1],
                                cx_scSizeGroup := (cx_scSizeGroup s2)
                                   [nat (cx_pickG s2) := int (length SelectEleTemp)]\<rparr>)))"

fun CX_phase1 ::
  "nat \<Rightarrow> (nat \<Rightarrow> nat) \<Rightarrow> nat \<Rightarrow> nat \<Rightarrow> nat \<Rightarrow> matrix \<Rightarrow> matrix \<Rightarrow> cx_state \<Rightarrow> cx_state option" where
  "CX_phase1 0 rnd RAND_MAX N K DM_p1 DM_p2 s = Some s"
| "CX_phase1 (Suc n) rnd RAND_MAX N K DM_p1 DM_p2 s =
     (case CX_iter rnd RAND_MAX N K DM_p1 DM_p2 s of
        None \<Rightarrow> None
      | Some s' \<Rightarrow> CX_phase1 n rnd RAND_MAX N K DM_p1 DM_p2 s')"

text \<open>
  The loop \<^verbatim>\<open>while (count < sumLB)\<close>: a random group flagged in \<^verbatim>\<open>BigThanLB\<close> gives one
  random member back to the pool. \<^verbatim>\<open>rand() % K\<close> with \<open>K = 0\<close> and \<^verbatim>\<open>rand() % lengthSE\<close>
  with an empty group are undefined: \<open>None\<close>.
\<close>

function CX_release ::
  "(nat \<Rightarrow> nat) \<Rightarrow> nat \<Rightarrow> nat \<Rightarrow> int list \<Rightarrow> int \<Rightarrow>
     int list \<times> int list \<times> int list \<times> int list \<times> int \<times> nat \<Rightarrow>
     (int list \<times> int list \<times> int list \<times> nat) option" where
  "CX_release rnd N K LB sumLB (sc, vEle, scSizeGroup, BigThanLB, count, draws) =
     (if count < sumLB then
        (if K = 0 then None
         else (case cyc_scan K (\<lambda>i. BigThanLB ! i \<noteq> 0) K (rnd draws mod K) of
                 None \<Rightarrow> None
               | Some pickG \<Rightarrow>
                   (let SelectEle = filter (\<lambda>j. sc ! j = int pickG) [0..<N];
                        lengthSE = length SelectEle
                    in if lengthSE = 0 then None
                       else (let pickV = rnd (draws + 1) mod lengthSE;
                                 e = SelectEle ! pickV;
                                 S = scSizeGroup[pickG := scSizeGroup ! pickG - 1]
                             in CX_release rnd N K LB sumLB
                                  (sc[e := - 1], vEle[e := int e], S,
                                   (if S ! pickG = LB ! pickG then BigThanLB[pickG := 0]
                                    else BigThanLB),
                                   count + 1, draws + 2)))))
      else Some (sc, vEle, scSizeGroup, draws))"
  by pat_completeness auto
termination
  by (relation "measure (\<lambda>(rnd, N, K, LB, sumLB, sc, vEle, scSizeGroup, BigThanLB, count, draws).
        nat (sumLB - count))") auto

text \<open>
  The loops \<^verbatim>\<open>while (sumLowerThanLB < sum)\<close> and \<^verbatim>\<open>while (sum < N)\<close> are one loop up to the
  names: a random flagged group receives a random free element, and loses its flag when it
  reaches its bound (\<open>LB\<close> in the first loop, \<open>UB\<close> in the second).
\<close>

function CX_fill ::
  "(nat \<Rightarrow> nat) \<Rightarrow> nat \<Rightarrow> nat \<Rightarrow> int list \<Rightarrow> int \<Rightarrow>
     int list \<times> int list \<times> int list \<times> int list \<times> int \<times> nat \<Rightarrow>
     (int list \<times> int list \<times> int list \<times> nat) option" where
  "CX_fill rnd N K Bound goal (sc, vEle, scSizeGroup, Group, sumv, draws) =
     (if sumv < goal then
        (if K = 0 then None
         else (case cyc_scan K (\<lambda>i. Group ! i \<noteq> 0) K (rnd draws mod K) of
                 None \<Rightarrow> None
               | Some pickG \<Rightarrow>
                   (let SelectEle = filter (\<lambda>i. vEle ! i \<noteq> - 1) [0..<N];
                        lengthSE = length SelectEle
                    in if lengthSE = 0 then None
                       else (let pickV = rnd (draws + 1) mod lengthSE;
                                 e = SelectEle ! pickV;
                                 S = scSizeGroup[pickG := scSizeGroup ! pickG + 1]
                             in CX_fill rnd N K Bound goal
                                  (sc[e := int pickG], vEle[e := - 1], S,
                                   (if S ! pickG = Bound ! pickG then Group[pickG := 0]
                                    else Group),
                                   sumv + 1, draws + 2)))))
      else Some (sc, vEle, scSizeGroup, draws))"
  by pat_completeness auto
termination
  by (relation "measure (\<lambda>(rnd, N, K, Bound, goal, sc, vEle, scSizeGroup, Group, sumv, draws).
        nat (goal - sumv))") auto

text \<open>
  The part of \<^verbatim>\<open>Crossover\<close> after the first loop: the counters and flags, then the three
  loops.
\<close>

definition CX_repair ::
  "(nat \<Rightarrow> nat) \<Rightarrow> nat \<Rightarrow> nat \<Rightarrow> int list \<Rightarrow> int list \<Rightarrow> int list \<Rightarrow> int list \<Rightarrow> int list \<Rightarrow> nat \<Rightarrow>
     (int list \<times> int list) option" where
  "CX_repair rnd N K LB UB sc vEle scSizeGroup draws =
     (let sumLB = sum_list (map (\<lambda>i. LB ! i) [0..<K]);
          count = sum_list (map (\<lambda>i. if scSizeGroup ! i < LB ! i then scSizeGroup ! i
                                      else LB ! i) [0..<K])
                  + int (length (filter (\<lambda>i. vEle ! i \<noteq> - 1) [0..<N]));
          sumLowerThanLB = sum_list (map (\<lambda>i. if scSizeGroup ! i < LB ! i then scSizeGroup ! i
                                               else 0) [0..<K]);
          LBGroup = map (\<lambda>i. if scSizeGroup ! i < LB ! i then 1 else (0::int)) [0..<K];
          BigThanLB = map (\<lambda>i. if LB ! i < scSizeGroup ! i then 1 else (0::int)) [0..<K]
      in case CX_release rnd N K LB sumLB (sc, vEle, scSizeGroup, BigThanLB, count, draws) of
           None \<Rightarrow> None
         | Some (sc2, vEle2, S2, draws2) \<Rightarrow>
             (let sumv = sum_list (map (\<lambda>i. if LBGroup ! i = 1 then LB ! i else 0) [0..<K])
              in case CX_fill rnd N K LB sumv (sc2, vEle2, S2, LBGroup, sumLowerThanLB, draws2) of
                   None \<Rightarrow> None
                 | Some (sc3, vEle3, S3, draws3) \<Rightarrow>
                     (let sumv = sum_list (map (\<lambda>i. S3 ! i) [0..<K]);
                          UBGroup = map (\<lambda>i. if S3 ! i < UB ! i then 1 else (0::int)) [0..<K]
                      in case CX_fill rnd N K UB (int N) (sc3, vEle3, S3, UBGroup, sumv, draws3) of
                           None \<Rightarrow> None
                         | Some (sc4, vEle4, S4, draws4) \<Rightarrow> Some (sc4, S4))))"

text \<open>
  \<^verbatim>\<open>Crossover(partition1, partition2, sc, scSizeGroup)\<close>. \<open>g0\<close> and \<open>pickG0\<close> stand for
  whatever the locals \<^verbatim>\<open>g\<close> and \<^verbatim>\<open>pickG\<close> hold at entry. The result is the pair
  \<^verbatim>\<open>(sc, scSizeGroup)\<close>, or \<open>None\<close> when the call runs into undefined behaviour or does not
  return. Overflow of \<^verbatim>\<open>int\<close> is not modelled.
\<close>

definition Crossover ::
  "(nat \<Rightarrow> nat) \<Rightarrow> nat \<Rightarrow> nat \<Rightarrow> nat \<Rightarrow> matrix \<Rightarrow> int list \<Rightarrow> int list \<Rightarrow> int \<Rightarrow> int \<Rightarrow>
     nat list \<Rightarrow> nat list \<Rightarrow> (int list \<times> int list) option" where
  "Crossover rnd RAND_MAX N K D LB UB g0 pickG0 partition1 partition2 =
     (let DM_p1 = fst (Build_Delta_Matrix N D partition1);
          DM_p2 = fst (Build_Delta_Matrix N D partition2);
          s0 = \<lparr>cx_sc = replicate N (- 1), cx_scSizeGroup = replicate K 0,
                cx_vEle = map int [0..<N], cx_ub = map (\<lambda>i. UB ! i) [0..<K],
                cx_p1 = map (\<lambda>i. int (partition1 ! i)) [0..<N],
                cx_p2 = map (\<lambda>i. int (partition2 ! i)) [0..<N],
                cx_gDiv_p1 = Build_GroupDiv_For_Crossover N D partition1,
                cx_gDiv_p2 = Build_GroupDiv_For_Crossover N D partition2,
                cx_g = g0, cx_pickG = pickG0, cx_draws = 0\<rparr>
      in case CX_phase1 K rnd RAND_MAX N K DM_p1 DM_p2 s0 of
           None \<Rightarrow> None
         | Some s1 \<Rightarrow>
             CX_repair rnd N K LB UB (cx_sc s1) (cx_vEle s1) (cx_scSizeGroup s1) (cx_draws s1))"

subsection \<open>Crossover: notions of the specification\<close>

text \<open>
  The number of indices below \<open>N\<close> at which an array holds \<open>y\<close>: for a child \<open>sc\<close> and a
  group \<open>y\<close>, the number of elements assigned to the group.
\<close>

definition members :: "nat \<Rightarrow> int list \<Rightarrow> int \<Rightarrow> int" where
  "members N sc y = (\<Sum>e<N. if sc ! e = y then 1 else 0)"

text \<open>
  The postcondition of the specification for the child: every element is assigned to one
  group of \<open>[0, K)\<close>, \<^verbatim>\<open>scSizeGroup\<close> holds the sizes of the groups, and every size lies within
  its bounds.
\<close>

definition child_ok :: "nat \<Rightarrow> nat \<Rightarrow> int list \<Rightarrow> int list \<Rightarrow> int list \<Rightarrow> int list \<Rightarrow> bool" where
  "child_ok N K LB UB sc S \<longleftrightarrow>
     length sc = N \<and> (\<forall>e<N. 0 \<le> sc ! e \<and> sc ! e < int K) \<and> length S = K \<and>
     (\<forall>g<K. S ! g = members N sc (int g) \<and> LB ! g \<le> S ! g \<and> S ! g \<le> UB ! g)"

subsection \<open>Crossover: notions used in the proofs\<close>

text \<open>
  A partial child: every element is free or in a group of \<open>[0, K)\<close>, the pool holds
  exactly the free elements, and the size array counts the members.
\<close>

definition cx_wf :: "nat \<Rightarrow> nat \<Rightarrow> int list \<Rightarrow> int list \<Rightarrow> int list \<Rightarrow> bool" where
  "cx_wf N K sc vEle S \<longleftrightarrow>
     length sc = N \<and> length vEle = N \<and> length S = K \<and>
     (\<forall>e<N. sc ! e = - 1 \<or> (0 \<le> sc ! e \<and> sc ! e < int K)) \<and>
     (\<forall>e<N. (vEle ! e \<noteq> - 1) = (sc ! e = - 1)) \<and>
     (\<forall>j<K. S ! j = members N sc (int j))"

text \<open>
  The invariant of the first loop after \<open>i\<close> iterations: the child is a partial child, an
  element is struck out of both parents exactly when it is assigned, a closed group is
  within its upper bound, an open group is empty and has its capacity, \<open>i\<close> groups are
  closed, and as long as \<^verbatim>\<open>g\<close> is \<open>-1\<close> nothing is assigned.
\<close>

definition CX_inv :: "nat \<Rightarrow> nat \<Rightarrow> int list \<Rightarrow> nat \<Rightarrow> cx_state \<Rightarrow> bool" where
  "CX_inv N K UB i s \<longleftrightarrow>
     cx_wf N K (cx_sc s) (cx_vEle s) (cx_scSizeGroup s) \<and>
     length (cx_ub s) = K \<and> length (cx_p1 s) = N \<and> length (cx_p2 s) = N \<and>
     (\<forall>e<N. if cx_sc s ! e = - 1 then 0 \<le> cx_p1 s ! e \<and> 0 \<le> cx_p2 s ! e
            else cx_p1 s ! e = - 1 \<and> cx_p2 s ! e = - 1) \<and>
     (\<forall>j<K. if cx_ub s ! j = - 1 then cx_scSizeGroup s ! j \<le> UB ! j
            else cx_ub s ! j = UB ! j \<and> cx_scSizeGroup s ! j = 0) \<and>
     members K (cx_ub s) (- 1) = int i \<and>
     (cx_g s = - 1 \<longrightarrow> (\<forall>e<N. cx_sc s ! e = - 1))"

section \<open>Offspring acceptance: the diversity term\<close>

text \<open>
  Claim C5. The specification's score adds a diversity bonus
  \<open>0.05 \<sqdot> (disagreements / N\<^sup>2) \<sqdot> K\<close> to the cost ratio, so that a child of lower cost
  with enough disagreeing pairs replaces its parent. The code evaluates the quotient on
  integers. At \<open>N = 4\<close>, \<open>K = 2\<close>, child \<open>[0,1,0,1]\<close> of cost 99 and parent \<open>[0,0,1,1]\<close> of
  cost 100, four pairs disagree and the specification's score is above 1, while
  \<^verbatim>\<open>FitRadioAndDis\<close> returns the bare ratio 99/100 and the child is not accepted.
\<close>

theorem C5_diversity_term_lost:
  "FitRadioAndDis_count 4 [0, 1, 0, 1] [0, 0, 1, 1] = 4 \<and>
   1 < spec_score 4 2 [0, 1, 0, 1] [0, 0, 1, 1] 99 100 \<and>
   FitRadioAndDis 4 2 [0, 1, 0, 1] [0, 0, 1, 1] 99 100 = Finite (99 / 100) \<and>
   accept_offspring 4 2 [0, 1, 0, 1] 99 [0, 0, 1, 1] 100 = False"
proof -
  have c: "FitRadioAndDis_count 4 [0, 1, 0, 1] [0, 0, 1, 1] = 4"
    by (simp add: FitRadioAndDis_count_def disagree_def upt_rec)
  have s: "1 < spec_score 4 2 [0, 1, 0, 1] [0, 0, 1, 1] 99 100"
    unfolding spec_score_def c by simp
  have r: "FitRadioAndDis 4 2 [0, 1, 0, 1] [0, 0, 1, 1] 99 100 = Finite (99 / 100)"
    unfolding FitRadioAndDis_def c by (simp add: ddiv_def)
  have a: "accept_offspring 4 2 [0, 1, 0, 1] 99 [0, 0, 1, 1] 100 = False"
    unfolding accept_offspring_def r by simp
  from c s r a show ?thesis by blast
qed

section \<open>Direct perturbation: the element marked for removal\<close>

text \<open>
  Claim C9. The element stored in \<^verbatim>\<open>Rd[k]\<close> should be a member of group \<open>k\<close> with the
  least \<^verbatim>\<open>Delta_Matrix[i][k]\<close>. The running minimum \<^verbatim>\<open>Minsd\<close> is an \<^verbatim>\<open>int\<close>, so each
  accepted value is truncated before the next comparison. Instance: four elements, two
  groups, edges \<open>(0,1)\<close> of weight 1, \<open>(0,2)\<close> of weight 0.5 and \<open>(1,2)\<close> of weight 0.75,
  partition \<open>[0,0,0,1]\<close>. The members of group 0 have the values 1.5, 1.75 and 1.25; the
  scan keeps element 0 (its value truncated to 1 hides the smaller 1.25 of element 2).
\<close>

theorem C9_marked_element_not_minimal:
  "\<exists>I DM. inputing \<lparr>if_opens = True, if_N = 4, if_K = 2, if_tag = Some ''ds'',
                     if_bounds = [(1, 3), (1, 3)],
                     if_edges = [(0, 1, 1), (0, 2, 1 / 2), (1, 2, 3 / 4)]\<rparr> = Inr I \<and>
     DM = fst (Build_Delta_Matrix (inst_N I) (inst_D I) [0, 0, 0, 1]) \<and>
     DM 0 0 = 3 / 2 \<and> DM 1 0 = 7 / 4 \<and> DM 2 0 = 5 / 4 \<and>
     DP_Rd (inst_N I) DM [0, 0, 0, 1] 0 = 0 \<and>
     fst (DP_mark (inst_N I) (inst_K I) (inst_LB I) DM [0, 0, 0, 1] [3, 1]) = [0, 3] \<and>
     [0, 0, 0, 1::nat] ! 2 = 0 \<and> DM 2 0 < DM 0 0"
proof -
  let ?D = "\<lambda>i j. if (i = 0 \<and> j = 1) \<or> (i = 1 \<and> j = 0) then 1
                  else if (i = 0 \<and> j = 2) \<or> (i = 2 \<and> j = 0) then 1 / 2
                  else if (i = 1 \<and> j = 2) \<or> (i = 2 \<and> j = 1) then 3 / 4 else (0::real)"
  let ?I = "\<lparr>inst_N = 4, inst_K = 2, inst_LB = [1, 1], inst_UB = [3, 3],
             inst_D = ?D, inst_DT = (\<lambda>i j. 2 * ?D i j)\<rparr>"
  define DM where "DM = Build_Delta_Matrix_DM 4 ?D [0, 0, 0, 1]"
  have ld: "inputing \<lparr>if_opens = True, if_N = 4, if_K = 2, if_tag = Some ''ds'',
                     if_bounds = [(1, 3), (1, 3)],
                     if_edges = [(0, 1, 1), (0, 2, 1 / 2), (1, 2, 3 / 4)]\<rparr> = Inr ?I"
    by (simp add: inputing_def read_header_def mat_set_def fun_eq_iff)
  have b: "fst (Build_Delta_Matrix 4 ?D [0, 0, 0, 1]) = DM"
    by (simp add: Build_Delta_Matrix_def Let_def DM_def)
  have v: "DM 0 0 = 3 / 2" "DM (Suc 0) 0 = 7 / 4" "DM (Suc (Suc 0)) 0 = 5 / 4"
    "DM (Suc (Suc (Suc 0))) (Suc 0) = 0"
    unfolding DM_def
    by (simp_all add: Build_Delta_Matrix_DM_def upt_rec dm_add_def Clear_Delta_Matrix_def)
  have r0: "DP_Rd 4 DM [0, 0, 0, 1] 0 = 0"
    by (simp add: DP_Rd_def DP_scan_step_def upt_rec trunc_int_def v)
  have r1: "DP_Rd 4 DM [0, 0, 0, 1] 1 = 3"
    by (simp add: DP_Rd_def DP_scan_step_def upt_rec trunc_int_def v)
  have m: "fst (DP_mark 4 2 [1, 1] DM [0, 0, 0, 1] [3, 1]) = [0, 3]"
    using r0 r1 by (simp add: DP_mark_def upt_rec Let_def numeral_2_eq_2)
  have w: "DM 1 0 = 7 / 4" "DM 2 0 = 5 / 4"
    using v by (simp_all add: numeral_2_eq_2)
  show ?thesis
    apply (rule exI [of _ ?I], rule exI [of _ DM])
    apply (simp only: ld instance_data.select_convs b r0 m)
    apply (simp add: v w)
    done
qed

section \<open>Loops\<close>



lemma fold_upt_Suc: "fold F [0..<Suc n] s = F n (fold F [0..<n] s)"
  by simp

section \<open>The delta matrix in closed form\<close>

lemma fold_row_add:
  "fold (\<lambda>j DM. dm_add DM i (p ! j) (D i j)) [0..<n] DM =
     (\<lambda>x g. if x = i then DM i g + (\<Sum>j<n. if p ! j = g then D i j else 0) else DM x g)"
proof (induction n)
  case 0
  show ?case by (simp add: fun_eq_iff)
next
  case (Suc n)
  show ?case
    unfolding fold_upt_Suc Suc by (simp add: dm_add_def fun_eq_iff)
qed

lemma fold_rows_add:
  "fold (\<lambda>i DM. fold (\<lambda>j DM. dm_add DM i (p ! j) (D i j)) [0..<N] DM) [0..<n] DM =
     (\<lambda>x g. if x < n then DM x g + group_sum N D p x g else DM x g)"
proof (induction n)
  case 0
  show ?case by (simp add: fun_eq_iff)
next
  case (Suc n)
  show ?case
    apply (simp only: fold_upt_Suc Suc)
    apply (simp only: fold_row_add)
    apply (auto simp add: group_sum_def fun_eq_iff less_Suc_eq)
    done
qed

lemma Build_Delta_Matrix_DM_eq:
  "Build_Delta_Matrix_DM N D p = (\<lambda>i g. if i < N then group_sum N D p i g else 0)"
  by (simp add: Build_Delta_Matrix_DM_def fold_rows_add Clear_Delta_Matrix_def fun_eq_iff)














section \<open>Local search\<close>

lemma LS_move_eq:
  "LS_move D N LB UB v g s =
     (if move_cond LB UB v g s then
        s\<lparr>ls_p := (ls_p s)[v := g],
          ls_SizeGroup := (ls_SizeGroup s)[ls_p s ! v := ls_SizeGroup s ! (ls_p s ! v) - 1,
             g := (ls_SizeGroup s)[ls_p s ! v := ls_SizeGroup s ! (ls_p s ! v) - 1] ! g + 1],
          ls_DM := One_Move_Update_Delta_Matrix1 N D (ls_DM s) v (ls_p s ! v) g,
          ls_f := ls_f s + (ls_DM s v g - ls_DM s v (ls_p s ! v)), ls_Flag := 1\<rparr>
      else s)"
  by (simp add: LS_move_def move_cond_def Let_def)





lemma fold_flag_mono:
  assumes "\<And>x s. flag s \<Longrightarrow> flag (F x s)" "flag s"
  shows "flag (fold F xs s)"
  using assms(2) by (induction xs arbitrary: s) (auto intro: assms(1))


lemma LS_move_flagged: "flagged s \<Longrightarrow> flagged (LS_move D N LB UB v g s)"
  by (simp add: LS_move_eq flagged_def)





lemma LS_moves_flagged: "flagged s \<Longrightarrow> flagged (LS_moves D N K LB UB s)"
  unfolding LS_moves_def
  by (rule fold_flag_mono [where flag = flagged],
      rule fold_flag_mono [where flag = flagged and F = "LS_move D N LB UB v" for v],
      rule LS_move_flagged)



















lemma example_D_val: "example_D 0 0 = 0" "example_D 0 (Suc 0) = 1" "example_D (Suc 0) 0 = 1" "example_D (Suc 0) (Suc 0) = 0"
  by (simp_all add: example_D_def)

lemma sum2: "(\<Sum>i<2. h i) = h 0 + (h (Suc 0) :: real)"
  by (simp add: numeral_2_eq_2)

lemma upt2: "[0..<2] = [0, 1]" "[Suc 0..<2] = [1]" "[2..<2] = []" "[0 + 1..<2] = [1]" "[1 + 1..<2] = []"
  by (simp_all add: upt_rec)

lemma gs2: "group_sum 2 D p i g = (if p ! 0 = g then D i 0 else 0) + (if p ! 1 = g then D i 1 else 0)"
  by (simp add: group_sum_def sum2)






section \<open>Cost bookkeeping\<close>



section \<open>Local optimality\<close>



section \<open>Incremental update against rebuild\<close>



section \<open>Termination of the local search\<close>



section \<open>Light perturbation\<close>

lemma do_while_sim_Some:
  assumes "do_while body1 again1 s1 = Some t1" "R s1 s2"
    and "\<And>a b. R a b \<Longrightarrow> R (body1 a) (body2 b)"
    and "\<And>a b. R a b \<Longrightarrow> again1 a = again2 b"
  shows "\<exists>t2. do_while body2 again2 s2 = Some t2 \<and> R t1 t2"
proof -
  have "(\<forall>x y. R x y \<longrightarrow> R (body1 x) (body2 y)) \<longrightarrow> (\<forall>x y. R x y \<longrightarrow> again1 x = again2 y) \<longrightarrow>
        (\<forall>s2. R s1 s2 \<longrightarrow> (\<exists>t2. do_while body2 again2 s2 = Some t2 \<and> R t1 t2))"
  proof (rule do_while.raw_induct
      [where P = "\<lambda>b a s t. (\<forall>x y. R x y \<longrightarrow> R (b x) (body2 y)) \<longrightarrow>
                    (\<forall>x y. R x y \<longrightarrow> a x = again2 y) \<longrightarrow>
                    (\<forall>s2. R s s2 \<longrightarrow> (\<exists>t2. do_while body2 again2 s2 = Some t2 \<and> R t t2))",
        OF _ assms(1)], goal_cases)
    case (1 f b a s t)
    show ?case
    proof (intro impI allI)
      fix u
      assume st: "\<forall>x y. R x y \<longrightarrow> R (b x) (body2 y)"
        and ag: "\<forall>x y. R x y \<longrightarrow> a x = again2 y" and R: "R s u"
      have R': "R (b s) (body2 u)" using st R by blast
      show "\<exists>t2. do_while body2 again2 u = Some t2 \<and> R t t2"
      proof (cases "a (b s)")
        case True
        with 1(2) have "f b a (b s) = Some t" by (simp add: Let_def)
        from 1(1) [OF this] st ag R' obtain t2 where
          "do_while body2 again2 (body2 u) = Some t2" "R t t2" by blast
        moreover have "again2 (body2 u)" using True ag R' by blast
        ultimately show ?thesis by (subst do_while.simps) (simp add: Let_def)
      next
        case False
        with 1(2) have "t = b s" by (simp add: Let_def)
        moreover have "\<not> again2 (body2 u)" using False ag R' by blast
        ultimately show ?thesis using R' by (subst do_while.simps) (simp add: Let_def)
      qed
    qed
  qed
  with assms(2-4) show ?thesis by blast
qed

lemma do_while_sim:
  assumes "R s1 s2"
    and "\<And>a b. R a b \<Longrightarrow> R (body1 a) (body2 b)"
    and "\<And>a b. R a b \<Longrightarrow> again1 a = again2 b"
  shows "rel_option R (do_while body1 again1 s1) (do_while body2 again2 s2)"
proof (cases "do_while body1 again1 s1")
  case (Some t1)
  from do_while_sim_Some [of body1 again1 s1 t1 R s2 body2 again2, OF Some assms]
  show ?thesis using Some by auto
next
  case None
  show ?thesis
  proof (cases "do_while body2 again2 s2")
    case (Some t2)
    have "\<exists>t1. do_while body1 again1 s1 = Some t1 \<and> R\<inverse>\<inverse> t2 t1"
      by (rule do_while_sim_Some [of body2 again2 s2 t2 "R\<inverse>\<inverse>" s1 body1 again1, OF Some])
         (use assms in auto)
    with None show ?thesis by simp
  next
    case None': None
    with None show ?thesis by simp
  qed
qed

lemma SP_body_same:
  assumes "sp_same a b"
  shows "sp_same (SP_body rnd Nb D DM1 LB UB n a) (SP_body rnd Nb D DM2 LB UB n b)"
  using assms
  by (cases "Nb ! (rnd (sp_draws b) mod n)") (simp_all add: SP_body_def sp_same_def Let_def)













text \<open>
  Claim C10. The result of \<^verbatim>\<open>StrongPerturbation\<close> (partition and sizes, or no result) is
  the same for any two contents of \<^verbatim>\<open>Delta_Matrix\<close>, given the same input partition,
  sizes, bounds, catalogue and random draws: the gain read from the matrix goes into
  \<^verbatim>\<open>delt\<close> and nowhere else.
\<close>

theorem C10_perturbation_ignores_delta_matrix:
  "StrongPerturbation rnd Neighbors D DM1 N K LB UB L part SizeGroup =
   StrongPerturbation rnd Neighbors D DM2 N K LB UB L part SizeGroup"
proof (cases "N * (N - 1) div 2 + N * K = 0")
  case True
  then show ?thesis by (simp add: StrongPerturbation_def StrongPerturbation_run_def)
next
  case False
  let ?n = "N * (N - 1) div 2 + N * K"
  let ?s = "\<lparr>sp_p = part, sp_SizeGroup = SizeGroup, sp_delt = 0, sp_count = 0, sp_draws = 0\<rparr>"
  have "rel_option sp_same
          (do_while (SP_body rnd Neighbors D DM1 LB UB ?n) (\<lambda>s. sp_count s < L) ?s)
          (do_while (SP_body rnd Neighbors D DM2 LB UB ?n) (\<lambda>s. sp_count s < L) ?s)"
  proof (rule do_while_sim)
    show "sp_same ?s ?s" by (simp add: sp_same_def)
    show "sp_same (SP_body rnd Neighbors D DM1 LB UB ?n a) (SP_body rnd Neighbors D DM2 LB UB ?n b)"
      if "sp_same a b" for a b using that by (rule SP_body_same)
    show "(sp_count a < L) = (sp_count b < L)" if "sp_same a b" for a b
      using that by (simp add: sp_same_def)
  qed
  then have "map_option (\<lambda>s. (sp_p s, sp_SizeGroup s))
               (do_while (SP_body rnd Neighbors D DM1 LB UB ?n) (\<lambda>s. sp_count s < L) ?s) =
             map_option (\<lambda>s. (sp_p s, sp_SizeGroup s))
               (do_while (SP_body rnd Neighbors D DM2 LB UB ?n) (\<lambda>s. sp_count s < L) ?s)"
    by (auto simp add: option.rel_sel sp_same_def
        split: option.splits)
  then show ?thesis
    unfolding StrongPerturbation_def StrongPerturbation_run_def Let_def if_not_P [OF False] .
qed

section \<open>Loading and checking\<close>


lemma read_edges_symmetric:
  assumes "read_edges N es D DT = Inr (D', DT')"
    and "\<forall>i j. D i j = D j i" "\<forall>i. D i i = 0" "\<forall>i j. DT i j = 2 * D i j"
  shows "(\<forall>i j. D' i j = D' j i) \<and> (\<forall>i. D' i i = 0) \<and> (\<forall>i j. DT' i j = 2 * D' i j)"
  using assms
proof (induction es arbitrary: D DT)
  case Nil
  then show ?case by auto
next
  case (Cons e es)
  obtain x1 x2 d where e: "e = (x1, x2, d)" by (cases e) auto
  show ?case
  proof (cases "x1 = x2")
    case True
    with Cons.prems(1) e have "read_edges N es D DT = Inr (D', DT')"
      by (simp split: if_splits)
    from Cons.IH [OF this Cons.prems(2-4)] show ?thesis .
  next
    case False
    let ?D = "mat_set (mat_set D (nat x2) (nat x1) d) (nat x1) (nat x2) d"
    let ?DT = "mat_set (mat_set DT (nat x2) (nat x1) (2 * d)) (nat x1) (nat x2) (2 * d)"
    from Cons.prems(1) e False have r: "0 \<le> x1" "0 \<le> x2"
      and rec: "read_edges N es ?D ?DT = Inr (D', DT')"
      by (auto simp add: Let_def mat_set_def split: if_splits)
    have ne: "nat x1 \<noteq> nat x2" using r False by simp
    have 1: "\<forall>i j. ?D i j = ?D j i" using Cons.prems(2) ne by (auto simp add: mat_set_def)
    have 2: "\<forall>i. ?D i i = 0" using Cons.prems(3) ne by (auto simp add: mat_set_def)
    have 3: "\<forall>i j. ?DT i j = 2 * ?D i j" using Cons.prems(4) by (auto simp add: mat_set_def)
    from Cons.IH [OF rec 1 2 3] show ?thesis .
  qed
qed

lemma inputing_dissim:
  assumes "inputing fl = Inr I"
  shows "dissim (inst_N I) (inst_D I)" "doubled (inst_N I) (inst_D I) (inst_DT I)"
proof -
  from assms obtain K LB UB D' DT' where
    e: "read_edges (if_N fl) (if_edges fl) (\<lambda>i j. 0) (\<lambda>i j. 0) = Inr (D', DT')"
    and I: "I = \<lparr>inst_N = if_N fl, inst_K = K, inst_LB = LB, inst_UB = UB, inst_D = D',
                 inst_DT = DT'\<rparr>"
    by (auto simp add: inputing_def split: if_splits sum.splits prod.splits)
  from read_edges_symmetric [OF e] show "dissim (inst_N I) (inst_D I)"
    "doubled (inst_N I) (inst_D I) (inst_DT I)"
    by (simp_all add: I dissim_def doubled_def)
qed








section \<open>Crossover\<close>

subsection \<open>Cyclic scans and member counts\<close>

lemma cyc_scan_Some:
  "cyc_scan fuel stop m i = Some r \<Longrightarrow> stop r \<and> (0 < m \<longrightarrow> r < m)"
  by (induction fuel arbitrary: i) (auto simp add: Let_def split: if_splits)

lemma cyc_scan_None:
  "cyc_scan fuel stop m i = None \<Longrightarrow> 1 \<le> d \<Longrightarrow> d \<le> fuel \<Longrightarrow> \<not> stop ((i + d) mod m)"
proof (induction fuel arbitrary: i d)
  case 0
  then show ?case by simp
next
  case (Suc fuel)
  from Suc.prems(1) have ns: "\<not> stop ((i + 1) mod m)"
    and rec: "cyc_scan fuel stop m ((i + 1) mod m) = None"
    by (auto simp add: Let_def split: if_splits)
  show ?case
  proof (cases "d = 1")
    case True
    then show ?thesis using ns by simp
  next
    case False
    then have "1 \<le> d - 1" "d - 1 \<le> fuel" using Suc.prems by auto
    from Suc.IH [OF rec this] have "\<not> stop (((i + 1) mod m + (d - 1)) mod m)" .
    moreover have "((i + 1) mod m + (d - 1)) mod m = (i + d) mod m"
    proof -
      have "((i + 1) mod m + (d - 1)) mod m = ((i + 1) + (d - 1)) mod m"
        by (rule mod_add_left_eq)
      also have "(i + 1) + (d - 1) = i + d" using Suc.prems(2) by simp
      finally show ?thesis .
    qed
    ultimately show ?thesis by simp
  qed
qed

lemma cyc_scan_finds:
  assumes "j < m" "stop j"
  shows "\<exists>r. cyc_scan m stop m i = Some r"
proof (rule ccontr)
  assume "\<not> ?thesis"
  then have n: "cyc_scan m stop m i = None" by simp
  define d where "d = (if (j + m - i mod m) mod m = 0 then m else (j + m - i mod m) mod m)"
  have m: "0 < m" using assms(1) by simp
  have d1: "1 \<le> d" "d \<le> m" using m by (auto simp add: d_def Suc_leI less_imp_le)
  have "(i + d) mod m = j"
  proof -
    let ?X = "j + m - i mod m"
    have "i mod m < m" using m by simp
    then have "i mod m + ?X = j + m" by simp
    then have "(i mod m + ?X) mod m = j" using assms(1) by simp
    moreover have "(i + ?X mod m) mod m = (i + ?X) mod m" by (rule mod_add_right_eq)
    moreover have "(i mod m + ?X) mod m = (i + ?X) mod m" by (rule mod_add_left_eq)
    ultimately have a: "(i + ?X mod m) mod m = j" by simp
    show ?thesis
    proof (cases "?X mod m = 0")
      case True
      with a have "i mod m = j" by simp
      with True show ?thesis by (simp add: d_def)
    next
      case False
      with a show ?thesis by (simp add: d_def)
    qed
  qed
  with cyc_scan_None [OF n d1] assms(2) show False by simp
qed

lemma members_nonneg: "0 \<le> members N sc y"
  by (simp add: members_def sum_nonneg)

lemma members_update:
  assumes "e < N" "length sc = N"
  shows "members N (sc[e := y]) z =
           members N sc z - (if sc ! e = z then 1 else 0) + (if y = z then 1 else 0)"
proof -
  have "members N (sc[e := y]) z =
          (\<Sum>i<N. (if sc ! i = z then 1 else 0) +
                   (if i = e then (if y = z then 1 else 0) - (if sc ! e = z then 1 else 0) else 0))"
    unfolding members_def using assms
    by (intro sum.cong refl) (auto simp: nth_list_update)
  also have "\<dots> = members N sc z + ((if y = z then 1 else 0) - (if sc ! e = z then 1 else 0))"
    using assms by (simp add: sum.distrib members_def)
  finally show ?thesis by simp
qed

lemma members_zero: "members N sc y = 0 \<longleftrightarrow> (\<forall>e<N. sc ! e \<noteq> y)"
proof -
  have "members N sc y = 0 \<longleftrightarrow> (\<forall>e\<in>{..<N}. (if sc ! e = y then 1 else (0::int)) = 0)"
    unfolding members_def by (rule sum_nonneg_eq_0_iff) auto
  then show ?thesis by auto
qed

lemma members_partition:
  assumes "\<forall>e<N. sc ! e = - 1 \<or> (0 \<le> sc ! e \<and> sc ! e < int K)"
  shows "(\<Sum>j<K. members N sc (int j)) + members N sc (- 1) = int N"
proof -
  have one: "(\<Sum>j<K. if sc ! e = int j then 1 else 0) + (if sc ! e = - 1 then 1 else 0) = (1::int)"
    if "e < N" for e
  proof (cases "sc ! e = - 1")
    case True
    then show ?thesis by simp
  next
    case False
    with assms that have r: "0 \<le> sc ! e" "sc ! e < int K" by auto
    have "(\<Sum>j<K. if sc ! e = int j then 1 else 0) = (\<Sum>j<K. if j = nat (sc ! e) then 1 else (0::int))"
      using r by (intro sum.cong refl) auto
    also have "\<dots> = 1" using r by simp
    finally show ?thesis using False by simp
  qed
  have "(\<Sum>j<K. members N sc (int j)) = (\<Sum>e<N. \<Sum>j<K. if sc ! e = int j then 1 else 0)"
    unfolding members_def by (rule sum.swap)
  then have "(\<Sum>j<K. members N sc (int j)) + members N sc (- 1) =
          (\<Sum>e<N. (\<Sum>j<K. if sc ! e = int j then 1 else 0) + (if sc ! e = - 1 then 1 else 0))"
    by (simp add: sum.distrib members_def)
  also have "\<dots> = (\<Sum>e<N. 1)" by (intro sum.cong refl) (simp add: one)
  finally show ?thesis by simp
qed

lemma length_filter_upt: "int (length (filter P [0..<N])) = (\<Sum>e<N. if P e then 1 else 0)"
  by (induction N) auto

lemma members_filter: "int (length (filter (\<lambda>j. sc ! j = y) [0..<N])) = members N sc y"
  by (simp add: length_filter_upt members_def)

lemma free_filter:
  assumes "\<forall>e<N. (vEle ! e \<noteq> - 1) = (sc ! e = - 1)"
  shows "int (length (filter (\<lambda>i. vEle ! i \<noteq> - 1) [0..<N])) = members N sc (- 1)"
  unfolding length_filter_upt members_def using assms by (intro sum.cong refl) auto

lemma sum_list_upt: "sum_list (map f [0..<K]) = (\<Sum>j<K. f j)"
  by (simp add: interv_sum_list_conv_sum_set_nat atLeast0LessThan)

subsection \<open>The three loops after the first loop\<close>

text \<open>
  The loop that releases members keeps a partial child, never takes a group below its lower
  bound, and ends with enough free elements to cover every shortfall. A loop that fills
  groups hands out exactly the elements it set out to hand out and takes no group above its
  bound. Both need a flagged group to be there and to be non-empty (or the pool to be
  non-empty) at every round: this is where the lower bounds have to be non-negative.
\<close>

declare CX_release.simps [simp del] CX_fill.simps [simp del] CX_trim.simps [simp del]

lemma nth_filter_upt:
  assumes "i < length (filter P [0..<N])"
  shows "filter P [0..<N] ! i < N \<and> P (filter P [0..<N] ! i)"
proof -
  have "filter P [0..<N] ! i \<in> set (filter P [0..<N])" using assms by (rule nth_mem)
  then show ?thesis by simp
qed

lemma CX_release_ok:
  assumes LB0: "\<forall>j<K. 0 \<le> LB ! j" and le: "sumLB \<le> int N"
  shows "n = nat (sumLB - count) \<Longrightarrow> cx_wf N K sc vEle S \<Longrightarrow> length Big = K \<Longrightarrow>
         (\<forall>j<K. (Big ! j \<noteq> 0) = (LB ! j < S ! j)) \<Longrightarrow>
         count = (\<Sum>j<K. min (S ! j) (LB ! j)) + members N sc (- 1) \<Longrightarrow>
         \<exists>sc' vEle' S' d'.
           CX_release rnd N K LB sumLB (sc, vEle, S, Big, count, d) = Some (sc', vEle', S', d') \<and>
           cx_wf N K sc' vEle' S' \<and> (\<forall>j<K. S' ! j \<le> S ! j \<and> min (S ! j) (LB ! j) \<le> S' ! j) \<and>
           sumLB \<le> (\<Sum>j<K. min (S' ! j) (LB ! j)) + members N sc' (- 1)"
proof (induction n arbitrary: sc vEle S Big count d)
  case 0
  then have "\<not> count < sumLB" by simp
  then show ?case using 0 by (subst CX_release.simps) auto
next
  case (Suc n)
  note wf = Suc.prems(2) and lB = Suc.prems(3) and fl = Suc.prems(4) and cnt = Suc.prems(5)
  have lt: "count < sumLB" using Suc.prems(1) by simp
  have len: "length sc = N" "length vEle = N" "length S = K"
    and rng: "\<forall>e<N. sc ! e = - 1 \<or> (0 \<le> sc ! e \<and> sc ! e < int K)"
    and vE: "\<forall>e<N. (vEle ! e \<noteq> - 1) = (sc ! e = - 1)"
    and sz: "\<forall>j<K. S ! j = members N sc (int j)"
    using wf by (auto simp: cx_wf_def)
  \<comment> \<open>some group is above its lower bound\<close>
  have "(\<Sum>j<K. min (S ! j) (LB ! j)) < (\<Sum>j<K. S ! j)"
    using members_partition [OF rng] sz cnt lt le by simp
  then have "\<exists>j<K. min (S ! j) (LB ! j) < S ! j"
  proof (rule contrapos_pp)
    assume h: "\<not> (\<exists>j<K. min (S ! j) (LB ! j) < S ! j)"
    have "S ! j \<le> min (S ! j) (LB ! j)" if "j < K" for j
    proof (rule ccontr)
      assume "\<not> S ! j \<le> min (S ! j) (LB ! j)"
      then have "min (S ! j) (LB ! j) < S ! j" by simp
      with h that show False by blast
    qed
    then have "\<forall>j\<in>{..<K}. S ! j \<le> min (S ! j) (LB ! j)" by simp
    then have "(\<Sum>j<K. S ! j) \<le> (\<Sum>j<K. min (S ! j) (LB ! j))" by (intro sum_mono) simp
    then show "\<not> (\<Sum>j<K. min (S ! j) (LB ! j)) < (\<Sum>j<K. S ! j)" by simp
  qed
  then obtain j0 where j0: "j0 < K" "Big ! j0 \<noteq> 0" using fl by auto
  then have K0: "K \<noteq> 0" by auto
  from cyc_scan_finds [OF j0(1), of "\<lambda>i. Big ! i \<noteq> 0" "rnd d mod K"] j0(2)
  obtain pickG where sc1: "cyc_scan K (\<lambda>i. Big ! i \<noteq> 0) K (rnd d mod K) = Some pickG" by auto
  from cyc_scan_Some [OF sc1] K0 have pG: "pickG < K" "Big ! pickG \<noteq> 0" by auto
  then have big: "LB ! pickG < S ! pickG" using fl by simp
  let ?Sel = "filter (\<lambda>j. sc ! j = int pickG) [0..<N]"
  have lSel: "int (length ?Sel) = S ! pickG" using sz pG(1) by (simp add: members_filter)
  have ne: "length ?Sel \<noteq> 0" using big LB0 pG(1) lSel by auto
  define e where "e = ?Sel ! (rnd (d + 1) mod length ?Sel)"
  have "rnd (d + 1) mod length ?Sel < length ?Sel" using ne by simp
  from nth_filter_upt [OF this] have e: "e < N" "sc ! e = int pickG" by (auto simp: e_def)
  let ?sc = "sc[e := - 1]" and ?vE = "vEle[e := int e]"
  let ?S = "S[pickG := S ! pickG - 1]"
  let ?Big = "if ?S ! pickG = LB ! pickG then Big[pickG := 0] else Big"
  have step: "CX_release rnd N K LB sumLB (sc, vEle, S, Big, count, d) =
              CX_release rnd N K LB sumLB (?sc, ?vE, ?S, ?Big, count + 1, d + 2)"
    using lt K0 sc1 ne by (subst CX_release.simps) (simp add: Let_def e_def)
  have mem: "members N ?sc z = members N sc z - (if int pickG = z then 1 else 0)
               + (if - 1 = z then 1 else 0)" for z
    using members_update [OF e(1) len(1), of "- 1" z] e(2) by simp
  have eN: "e < length sc" "e < length vEle" using e(1) len by simp_all
  have pK: "pickG < length S" using pG(1) len by simp
  have wf': "cx_wf N K ?sc ?vE ?S"
    unfolding cx_wf_def
  proof (intro conjI allI impI)
    show "length ?sc = N" "length ?vE = N" "length ?S = K" using len by simp_all
    show "?sc ! x = - 1 \<or> (0 \<le> ?sc ! x \<and> ?sc ! x < int K)" if "x < N" for x
      using that rng eN by (auto simp add: nth_list_update)
    show "(?vE ! x \<noteq> - 1) = (?sc ! x = - 1)" if "x < N" for x
      using that vE eN by (auto simp add: nth_list_update)
    show "?S ! j = members N ?sc (int j)" if "j < K" for j
      using that sz pK by (auto simp add: mem nth_list_update)
  qed
  have lB': "length ?Big = K" using lB by simp
  have fl': "\<forall>j<K. (?Big ! j \<noteq> 0) = (LB ! j < ?S ! j)"
    using fl lB pK pG big by (auto simp add: nth_list_update)
  have mn: "min (?S ! j) (LB ! j) = min (S ! j) (LB ! j)" if "j < K" for j
    using that pK big by (auto simp add: nth_list_update)
  have cnt': "count + 1 = (\<Sum>j<K. min (?S ! j) (LB ! j)) + members N ?sc (- 1)"
    using cnt mn by (simp add: mem)
  have n': "n = nat (sumLB - (count + 1))" using Suc.prems(1) by simp
  from Suc.IH [OF n' wf' lB' fl' cnt', of "d + 2"] obtain sc' vEle' S' d' where
    r: "CX_release rnd N K LB sumLB (?sc, ?vE, ?S, ?Big, count + 1, d + 2) = Some (sc', vEle', S', d')"
    and w: "cx_wf N K sc' vEle' S'"
    and b: "\<forall>j<K. S' ! j \<le> ?S ! j \<and> min (?S ! j) (LB ! j) \<le> S' ! j"
    and c: "sumLB \<le> (\<Sum>j<K. min (S' ! j) (LB ! j)) + members N sc' (- 1)" by blast
  have "\<forall>j<K. S' ! j \<le> S ! j \<and> min (S ! j) (LB ! j) \<le> S' ! j"
  proof (intro allI impI)
    fix j assume j: "j < K"
    have "?S ! j \<le> S ! j" using j pK by (auto simp add: nth_list_update)
    with b j mn [OF j] show "S' ! j \<le> S ! j \<and> min (S ! j) (LB ! j) \<le> S' ! j" by auto
  qed
  with r w c show ?case unfolding step by blast
qed

lemma CX_fill_ok:
  "n = nat (goal - cur) \<Longrightarrow> cx_wf N K sc vEle S \<Longrightarrow> length G = K \<Longrightarrow>
   (\<forall>j<K. (G ! j \<noteq> 0) = (S ! j < B ! j)) \<Longrightarrow>
   goal - cur \<le> (\<Sum>j<K. max (B ! j - S ! j) 0) \<Longrightarrow> goal - cur \<le> members N sc (- 1) \<Longrightarrow>
   \<exists>sc' vEle' S' d'.
     CX_fill rnd N K B goal (sc, vEle, S, G, cur, d) = Some (sc', vEle', S', d') \<and>
     cx_wf N K sc' vEle' S' \<and> (\<forall>j<K. S ! j \<le> S' ! j \<and> S' ! j \<le> max (S ! j) (B ! j)) \<and>
     members N sc' (- 1) = members N sc (- 1) - int n"
proof (induction n arbitrary: sc vEle S G cur d)
  case 0
  then have "\<not> cur < goal" by simp
  then show ?case using 0 by (subst CX_fill.simps) auto
next
  case (Suc n)
  note wf = Suc.prems(2) and lG = Suc.prems(3) and fl = Suc.prems(4)
    and cap = Suc.prems(5) and fr = Suc.prems(6)
  have lt: "cur < goal" using Suc.prems(1) by simp
  have len: "length sc = N" "length vEle = N" "length S = K"
    and rng: "\<forall>e<N. sc ! e = - 1 \<or> (0 \<le> sc ! e \<and> sc ! e < int K)"
    and vE: "\<forall>e<N. (vEle ! e \<noteq> - 1) = (sc ! e = - 1)"
    and sz: "\<forall>j<K. S ! j = members N sc (int j)"
    using wf by (auto simp: cx_wf_def)
  have "\<exists>j<K. S ! j < B ! j"
  proof (rule ccontr)
    assume h: "\<not> (\<exists>j<K. S ! j < B ! j)"
    have "max (B ! j - S ! j) 0 = 0" if "j < K" for j
    proof -
      have "\<not> S ! j < B ! j" using h that by blast
      then show ?thesis by simp
    qed
    then have "(\<Sum>j<K. max (B ! j - S ! j) 0) = 0" by simp
    with cap lt show False by simp
  qed
  then obtain j0 where j0: "j0 < K" "G ! j0 \<noteq> 0" using fl by auto
  then have K0: "K \<noteq> 0" by auto
  from cyc_scan_finds [OF j0(1), of "\<lambda>i. G ! i \<noteq> 0" "rnd d mod K"] j0(2)
  obtain pickG where sc1: "cyc_scan K (\<lambda>i. G ! i \<noteq> 0) K (rnd d mod K) = Some pickG" by auto
  from cyc_scan_Some [OF sc1] K0 have pG: "pickG < K" "G ! pickG \<noteq> 0" by auto
  then have low: "S ! pickG < B ! pickG" using fl by simp
  let ?Sel = "filter (\<lambda>i. vEle ! i \<noteq> - 1) [0..<N]"
  have lSel: "int (length ?Sel) = members N sc (- 1)" by (rule free_filter [OF vE])
  have ne: "length ?Sel \<noteq> 0" using fr lt lSel by auto
  define e where "e = ?Sel ! (rnd (d + 1) mod length ?Sel)"
  have "rnd (d + 1) mod length ?Sel < length ?Sel" using ne by simp
  from nth_filter_upt [OF this] have e: "e < N" "vEle ! e \<noteq> - 1" by (auto simp: e_def)
  then have e2: "sc ! e = - 1" using vE by simp
  let ?sc = "sc[e := int pickG]" and ?vE = "vEle[e := - 1]"
  let ?S = "S[pickG := S ! pickG + 1]"
  let ?G = "if ?S ! pickG = B ! pickG then G[pickG := 0] else G"
  have step: "CX_fill rnd N K B goal (sc, vEle, S, G, cur, d) =
              CX_fill rnd N K B goal (?sc, ?vE, ?S, ?G, cur + 1, d + 2)"
    using lt K0 sc1 ne by (subst CX_fill.simps) (simp add: Let_def e_def)
  have mem: "members N ?sc z = members N sc z - (if - 1 = z then 1 else 0)
               + (if int pickG = z then 1 else 0)" for z
    using members_update [OF e(1) len(1), of "int pickG" z] e2 by simp
  have eN: "e < length sc" "e < length vEle" using e(1) len by simp_all
  have pK: "pickG < length S" using pG(1) len by simp
  have wf': "cx_wf N K ?sc ?vE ?S"
    unfolding cx_wf_def
  proof (intro conjI allI impI)
    show "length ?sc = N" "length ?vE = N" "length ?S = K" using len by simp_all
    show "?sc ! x = - 1 \<or> (0 \<le> ?sc ! x \<and> ?sc ! x < int K)" if "x < N" for x
      using that rng eN pG(1) by (auto simp add: nth_list_update)
    show "(?vE ! x \<noteq> - 1) = (?sc ! x = - 1)" if "x < N" for x
      using that vE eN by (auto simp add: nth_list_update)
    show "?S ! j = members N ?sc (int j)" if "j < K" for j
      using that sz pK by (auto simp add: mem nth_list_update)
  qed
  have lG': "length ?G = K" using lG by simp
  have fl': "\<forall>j<K. (?G ! j \<noteq> 0) = (?S ! j < B ! j)"
    using fl lG pK pG low by (auto simp add: nth_list_update)
  have pt: "max (B ! j - ?S ! j) 0 = max (B ! j - S ! j) 0 - (if j = pickG then 1 else 0)"
    if "j < K" for j
    using that pK low by (auto simp add: nth_list_update)
  have "(\<Sum>j<K. max (B ! j - ?S ! j) 0) =
          (\<Sum>j<K. max (B ! j - S ! j) 0 - (if j = pickG then 1 else 0))"
    by (intro sum.cong refl) (simp add: pt)
  also have "\<dots> = (\<Sum>j<K. max (B ! j - S ! j) 0) - 1"
    using pG(1) by (simp add: sum_subtractf)
  finally have cap': "goal - (cur + 1) \<le> (\<Sum>j<K. max (B ! j - ?S ! j) 0)" using cap by simp
  have fr': "goal - (cur + 1) \<le> members N ?sc (- 1)" using fr by (simp add: mem)
  have n': "n = nat (goal - (cur + 1))" using Suc.prems(1) by simp
  from Suc.IH [OF n' wf' lG' fl' cap' fr', of "d + 2"] obtain sc' vEle' S' d' where
    r: "CX_fill rnd N K B goal (?sc, ?vE, ?S, ?G, cur + 1, d + 2) = Some (sc', vEle', S', d')"
    and w: "cx_wf N K sc' vEle' S'"
    and b: "\<forall>j<K. ?S ! j \<le> S' ! j \<and> S' ! j \<le> max (?S ! j) (B ! j)"
    and c: "members N sc' (- 1) = members N ?sc (- 1) - int n" by blast
  have "\<forall>j<K. S ! j \<le> S' ! j \<and> S' ! j \<le> max (S ! j) (B ! j)"
  proof (intro allI impI)
    fix j assume j: "j < K"
    have "S ! j \<le> ?S ! j" "max (?S ! j) (B ! j) \<le> max (S ! j) (B ! j)"
      using j pK low by (auto simp add: nth_list_update)
    with b j show "S ! j \<le> S' ! j \<and> S' ! j \<le> max (S ! j) (B ! j)" by force
  qed
  moreover have "members N sc' (- 1) = members N sc (- 1) - int (Suc n)"
    using c by (simp add: mem)
  ultimately show ?case using r w unfolding step by blast
qed

lemma sum_pointwise_eq:
  fixes f g :: "nat \<Rightarrow> int"
  assumes "\<forall>j<K. f j \<le> g j" "(\<Sum>j<K. f j) = (\<Sum>j<K. g j)" "j < K"
  shows "f j = g j"
proof -
  have "(\<Sum>j<K. g j - f j) = 0" using assms(2) by (simp add: sum_subtractf)
  moreover have "\<forall>j\<in>{..<K}. 0 \<le> g j - f j" using assms(1) by simp
  ultimately have "\<forall>j\<in>{..<K}. g j - f j = 0"
    using sum_nonneg_eq_0_iff [of "{..<K}" "\<lambda>j. g j - f j"] by simp
  with assms(3) show ?thesis by simp
qed

lemma CX_repair_ok:
  assumes wf: "cx_wf N K sc vEle S" and ub: "\<forall>j<K. S ! j \<le> UB ! j"
    and LB0: "\<forall>j<K. 0 \<le> LB ! j" and LBUB: "\<forall>j<K. LB ! j \<le> UB ! j"
    and sLB: "(\<Sum>j<K. LB ! j) \<le> int N" and sUB: "int N \<le> (\<Sum>j<K. UB ! j)"
  shows "\<exists>sc' S'. CX_repair rnd N K LB UB sc vEle S d = Some (sc', S') \<and> child_ok N K LB UB sc' S'"
proof -
  have vE: "\<forall>e<N. (vEle ! e \<noteq> - 1) = (sc ! e = - 1)" and lS: "length S = K"
    using wf by (auto simp: cx_wf_def)
  let ?sumLB = "sum_list (map (\<lambda>i. LB ! i) [0..<K])"
  let ?count = "sum_list (map (\<lambda>i. if S ! i < LB ! i then S ! i else LB ! i) [0..<K])
                  + int (length (filter (\<lambda>i. vEle ! i \<noteq> - 1) [0..<N]))"
  let ?sLT = "sum_list (map (\<lambda>i. if S ! i < LB ! i then S ! i else 0) [0..<K])"
  let ?LBG = "map (\<lambda>i. if S ! i < LB ! i then 1 else (0::int)) [0..<K]"
  let ?Big = "map (\<lambda>i. if LB ! i < S ! i then 1 else (0::int)) [0..<K]"
  \<comment> \<open>release\<close>
  have a1: "?sumLB \<le> int N" using sLB by (simp add: sum_list_upt)
  have a2: "?count = (\<Sum>j<K. min (S ! j) (LB ! j)) + members N sc (- 1)"
    by (simp add: sum_list_upt free_filter [OF vE] min_def not_less cong: if_cong)
       (intro sum.cong refl, auto)
  obtain sc2 vEle2 S2 d2 where
    r2: "CX_release rnd N K LB ?sumLB (sc, vEle, S, ?Big, ?count, d) = Some (sc2, vEle2, S2, d2)"
    and wf2: "cx_wf N K sc2 vEle2 S2"
    and b2: "\<forall>j<K. S2 ! j \<le> S ! j \<and> min (S ! j) (LB ! j) \<le> S2 ! j"
    and c2: "?sumLB \<le> (\<Sum>j<K. min (S2 ! j) (LB ! j)) + members N sc2 (- 1)"
  proof -
    have l: "length ?Big = K" by simp
    have f: "\<forall>j<K. (?Big ! j \<noteq> 0) = (LB ! j < S ! j)" by simp
    from CX_release_ok [OF LB0 a1 refl wf l f a2, of rnd d] that show thesis by blast
  qed
  have rng2: "\<forall>e<N. sc2 ! e = - 1 \<or> (0 \<le> sc2 ! e \<and> sc2 ! e < int K)"
    and sz2: "\<forall>j<K. S2 ! j = members N sc2 (int j)"
    using wf2 by (auto simp: cx_wf_def)
  \<comment> \<open>fill up to the lower bounds\<close>
  let ?goal = "sum_list (map (\<lambda>i. if ?LBG ! i = 1 then LB ! i else 0) [0..<K])"
  have lt_iff: "(S2 ! j < LB ! j) = (S ! j < LB ! j)" if "j < K" for j
    using b2 that by (auto simp: min_def split: if_splits)
  have same: "S2 ! j = S ! j" if "j < K" "S ! j < LB ! j" for j
    using b2 that by (auto simp: min_def split: if_splits)
  have f3: "\<forall>j<K. (?LBG ! j \<noteq> 0) = (S2 ! j < LB ! j)" using lt_iff by simp
  have gc: "?goal - ?sLT = (\<Sum>j<K. max (LB ! j - S2 ! j) 0)"
  proof -
    have "?goal = (\<Sum>j<K. if S ! j < LB ! j then LB ! j else 0)"
      unfolding sum_list_upt by (intro sum.cong refl) simp
    moreover have "?sLT = (\<Sum>j<K. if S ! j < LB ! j then S ! j else 0)"
      by (simp add: sum_list_upt)
    moreover have "(\<Sum>j<K. max (LB ! j - S2 ! j) 0) =
        (\<Sum>j<K. (if S ! j < LB ! j then LB ! j else 0) - (if S ! j < LB ! j then S ! j else 0))"
    proof (intro sum.cong refl)
      fix j assume "j \<in> {..<K}"
      then have j: "j < K" by simp
      show "max (LB ! j - S2 ! j) 0 =
              (if S ! j < LB ! j then LB ! j else 0) - (if S ! j < LB ! j then S ! j else 0)"
        using lt_iff [OF j] same [OF j] by (auto simp: max_def)
    qed
    ultimately show ?thesis by (simp add: sum_subtractf)
  qed
  have fr3: "?goal - ?sLT \<le> members N sc2 (- 1)"
  proof -
    have "(\<Sum>j<K. max (LB ! j - S2 ! j) 0) = (\<Sum>j<K. LB ! j - min (S2 ! j) (LB ! j))"
      by (intro sum.cong refl) (auto simp: max_def min_def)
    also have "\<dots> = ?sumLB - (\<Sum>j<K. min (S2 ! j) (LB ! j))"
      by (simp add: sum_subtractf sum_list_upt)
    finally show ?thesis using c2 gc by simp
  qed
  obtain sc3 vEle3 S3 d3 where
    r3: "CX_fill rnd N K LB ?goal (sc2, vEle2, S2, ?LBG, ?sLT, d2) = Some (sc3, vEle3, S3, d3)"
    and wf3: "cx_wf N K sc3 vEle3 S3"
    and b3: "\<forall>j<K. S2 ! j \<le> S3 ! j \<and> S3 ! j \<le> max (S2 ! j) (LB ! j)"
    and c3: "members N sc3 (- 1) = members N sc2 (- 1) - int (nat (?goal - ?sLT))"
  proof -
    have l: "length ?LBG = K" by simp
    have c: "?goal - ?sLT \<le> (\<Sum>j<K. max (LB ! j - S2 ! j) 0)" using gc by simp
    from CX_fill_ok [OF refl wf2 l f3 c fr3, of rnd d2] that show thesis by blast
  qed
  have rng3: "\<forall>e<N. sc3 ! e = - 1 \<or> (0 \<le> sc3 ! e \<and> sc3 ! e < int K)"
    and sz3: "\<forall>j<K. S3 ! j = members N sc3 (int j)"
    using wf3 by (auto simp: cx_wf_def)
  have p2: "(\<Sum>j<K. S2 ! j) + members N sc2 (- 1) = int N"
    using members_partition [OF rng2] sz2 by simp
  have p3: "(\<Sum>j<K. S3 ! j) + members N sc3 (- 1) = int N"
    using members_partition [OF rng3] sz3 by simp
  have ge0: "0 \<le> ?goal - ?sLT" unfolding gc by (intro sum_nonneg) simp
  have "(\<Sum>j<K. S3 ! j - S2 ! j) = (\<Sum>j<K. max (LB ! j - S2 ! j) 0)"
    using p2 p3 c3 ge0 gc by (simp add: sum_subtractf)
  moreover have "\<forall>j<K. S3 ! j - S2 ! j \<le> max (LB ! j - S2 ! j) 0"
  proof (intro allI impI)
    fix j assume "j < K"
    with b3 have "S3 ! j \<le> max (S2 ! j) (LB ! j)" by blast
    then show "S3 ! j - S2 ! j \<le> max (LB ! j - S2 ! j) 0" by (simp add: max_def split: if_splits)
  qed
  ultimately have eq3: "S3 ! j - S2 ! j = max (LB ! j - S2 ! j) 0" if "j < K" for j
    using sum_pointwise_eq [of K "\<lambda>j. S3 ! j - S2 ! j" "\<lambda>j. max (LB ! j - S2 ! j) 0" j] that
    by blast
  have lo3: "\<forall>j<K. LB ! j \<le> S3 ! j"
  proof (intro allI impI)
    fix j assume "j < K"
    from eq3 [OF this] show "LB ! j \<le> S3 ! j" by (cases "LB ! j \<le> S2 ! j") simp_all
  qed
  have hi3: "\<forall>j<K. S3 ! j \<le> UB ! j"
  proof (intro allI impI)
    fix j assume j: "j < K"
    have "S2 ! j \<le> UB ! j" using b2 ub j by force
    moreover from b3 j have "S3 ! j \<le> max (S2 ! j) (LB ! j)" by blast
    moreover from LBUB j have "LB ! j \<le> UB ! j" by blast
    ultimately show "S3 ! j \<le> UB ! j" by simp
  qed
  \<comment> \<open>fill the remaining elements\<close>
  let ?cur = "sum_list (map (\<lambda>i. S3 ! i) [0..<K])"
  let ?UBG = "map (\<lambda>i. if S3 ! i < UB ! i then 1 else (0::int)) [0..<K]"
  have cur: "?cur = (\<Sum>j<K. S3 ! j)" by (simp add: sum_list_upt)
  have f4: "\<forall>j<K. (?UBG ! j \<noteq> 0) = (S3 ! j < UB ! j)" by simp
  have fr4: "int N - ?cur \<le> members N sc3 (- 1)" using p3 cur by simp
  have cap4: "int N - ?cur \<le> (\<Sum>j<K. max (UB ! j - S3 ! j) 0)"
  proof -
    have "(\<Sum>j<K. max (UB ! j - S3 ! j) 0) = (\<Sum>j<K. UB ! j - S3 ! j)"
      using hi3 by (intro sum.cong refl) (auto simp: max_def)
    also have "\<dots> = (\<Sum>j<K. UB ! j) - (\<Sum>j<K. S3 ! j)" by (simp add: sum_subtractf)
    finally show ?thesis using sUB cur by simp
  qed
  obtain sc4 vEle4 S4 d4 where
    r4: "CX_fill rnd N K UB (int N) (sc3, vEle3, S3, ?UBG, ?cur, d3) = Some (sc4, vEle4, S4, d4)"
    and wf4: "cx_wf N K sc4 vEle4 S4"
    and b4: "\<forall>j<K. S3 ! j \<le> S4 ! j \<and> S4 ! j \<le> max (S3 ! j) (UB ! j)"
    and c4: "members N sc4 (- 1) = members N sc3 (- 1) - int (nat (int N - ?cur))"
  proof -
    have l: "length ?UBG = K" by simp
    from CX_fill_ok [OF refl wf3 l f4 cap4 fr4, of rnd d3] that show thesis by blast
  qed
  have "0 \<le> members N sc3 (- 1)" by (rule members_nonneg)
  then have "members N sc4 (- 1) = 0" using c4 p3 cur by simp
  then have none: "\<forall>e<N. sc4 ! e \<noteq> - 1" by (simp add: members_zero)
  have ok: "child_ok N K LB UB sc4 S4"
    unfolding child_ok_def
  proof (intro conjI allI impI)
    show "length sc4 = N" "length S4 = K" using wf4 by (auto simp: cx_wf_def)
    show "0 \<le> sc4 ! e" "sc4 ! e < int K" if "e < N" for e
      using wf4 none that by (auto simp: cx_wf_def)
    show "S4 ! g = members N sc4 (int g)" if "g < K" for g
      using wf4 that by (auto simp: cx_wf_def)
    show "LB ! g \<le> S4 ! g" if "g < K" for g using b4 lo3 that by force
    show "S4 ! g \<le> UB ! g" if "g < K" for g
    proof -
      from b4 that have "S4 ! g \<le> max (S3 ! g) (UB ! g)" by blast
      moreover from hi3 that have "S3 ! g \<le> UB ! g" by blast
      ultimately show ?thesis by simp
    qed
  qed
  have "CX_repair rnd N K LB UB sc vEle S d = Some (sc4, S4)"
    unfolding CX_repair_def Let_def r2 option.case prod.case r3 r4 ..
  with ok show ?thesis by blast
qed

subsection \<open>The first loop\<close>

lemma CX_pick_group_range:
  "CX_pick_group gDiv K g = g \<or> (0 \<le> CX_pick_group gDiv K g \<and> CX_pick_group gDiv K g < int K)"
proof -
  let ?F = "\<lambda>j (gDivMax, g). if real_of_int gDivMax < gDiv j then (trunc_int (gDiv j), int j)
                                  else (gDivMax, g)"
  have "snd (fold ?F [0..<n] a) = snd a \<or>
        (0 \<le> snd (fold ?F [0..<n] a) \<and> snd (fold ?F [0..<n] a) < int n)" for n a
  proof (induction n)
    case 0
    show ?case by simp
  next
    case (Suc n)
    then show ?case
      unfolding fold_upt_Suc by (cases "fold ?F [0..<n] a") (auto split: if_splits)
  qed
  from this [of K "(- 9999, g)"] show ?thesis by (simp add: CX_pick_group_def)
qed

lemma CX_shortfall_inv:
  "case CX_shortfall ub n lengthSE pg of (num, pickG) \<Rightarrow>
     num \<le> 999999 \<and>
     (num < 999999 \<longrightarrow> 0 \<le> pickG \<and> nat pickG < n \<and> ub ! nat pickG \<noteq> - 1 \<and>
        num = int lengthSE - ub ! nat pickG) \<and>
     (\<forall>j<n. ub ! j \<noteq> - 1 \<longrightarrow> num \<le> int lengthSE - ub ! j)"
proof (induction n)
  case 0
  show ?case by (simp add: CX_shortfall_def)
next
  case (Suc n)
  obtain num pickG where r: "CX_shortfall ub n lengthSE pg = (num, pickG)"
    by (cases "CX_shortfall ub n lengthSE pg")
  have s: "CX_shortfall ub (Suc n) lengthSE pg =
             (if ub ! n \<noteq> - 1 \<and> int lengthSE - ub ! n < num
              then (int lengthSE - ub ! n, int n) else (num, pickG))"
    using r by (simp add: CX_shortfall_def)
  from Suc r have IH: "num \<le> 999999"
    "num < 999999 \<longrightarrow> 0 \<le> pickG \<and> nat pickG < n \<and> ub ! nat pickG \<noteq> - 1 \<and>
        num = int lengthSE - ub ! nat pickG"
    "\<forall>j<n. ub ! j \<noteq> - 1 \<longrightarrow> num \<le> int lengthSE - ub ! j" by auto
  show ?case
  proof (cases "ub ! n \<noteq> - 1 \<and> int lengthSE - ub ! n < num")
    case True
    then show ?thesis unfolding s using IH by (auto simp add: less_Suc_eq)
  next
    case False
    then show ?thesis unfolding s using IH by (auto simp add: less_Suc_eq)
  qed
qed

lemma fold_assign_nth:
  assumes "\<forall>e\<in>set es. e < length xs"
  shows "length (fold (\<lambda>e xs. xs[nat e := v]) (map int es) xs) = length xs \<and>
         (\<forall>x<length xs. fold (\<lambda>e xs. xs[nat e := v]) (map int es) xs ! x =
                           (if x \<in> set es then v else xs ! x))"
  using assms
proof (induction es arbitrary: xs)
  case Nil
  show ?case by simp
next
  case (Cons e es)
  have "\<forall>y\<in>set es. y < length (xs[e := v])" using Cons.prems by simp
  from Cons.IH [OF this] Cons.prems show ?case
    by (auto simp add: nth_list_update)
qed

lemma CX_retire_ok:
  "distinct es \<Longrightarrow> \<forall>e\<in>set es. e < N \<and> 0 \<le> cx_p1 s ! e \<and> 0 \<le> cx_p2 s ! e \<Longrightarrow>
   length (cx_p1 s) = N \<Longrightarrow> length (cx_p2 s) = N \<Longrightarrow>
   \<exists>s'. CX_retire DM1 DM2 es s = Some s' \<and>
        length (cx_p1 s') = N \<and> length (cx_p2 s') = N \<and>
        (\<forall>x<N. cx_p1 s' ! x = (if x \<in> set es then - 1 else cx_p1 s ! x)) \<and>
        (\<forall>x<N. cx_p2 s' ! x = (if x \<in> set es then - 1 else cx_p2 s ! x)) \<and>
        cx_sc s' = cx_sc s \<and> cx_vEle s' = cx_vEle s \<and> cx_scSizeGroup s' = cx_scSizeGroup s \<and>
        cx_ub s' = cx_ub s \<and> cx_g s' = cx_g s \<and> cx_pickG s' = cx_pickG s"
proof (induction es arbitrary: s)
  case Nil
  then show ?case by simp
next
  case (Cons e es)
  let ?h1 = "nat (cx_p1 s ! e)" and ?h2 = "nat (cx_p2 s ! e)"
  let ?s = "s\<lparr>cx_gDiv_p1 := (cx_gDiv_p1 s)(?h1 := cx_gDiv_p1 s ?h1 - DM1 e ?h1),
              cx_gDiv_p2 := (cx_gDiv_p2 s)(?h2 := cx_gDiv_p2 s ?h2 - DM2 e ?h2),
              cx_p1 := (cx_p1 s)[e := - 1], cx_p2 := (cx_p2 s)[e := - 1]\<rparr>"
  have e: "e < N" "0 \<le> cx_p1 s ! e" "0 \<le> cx_p2 s ! e" "e \<notin> set es" "distinct es"
    using Cons.prems by auto
  have step: "CX_retire DM1 DM2 (e # es) s = CX_retire DM1 DM2 es ?s"
    using e by (simp add: Let_def)
  have pre: "\<forall>x\<in>set es. x < N \<and> 0 \<le> cx_p1 ?s ! x \<and> 0 \<le> cx_p2 ?s ! x"
    using Cons.prems e by (auto simp add: nth_list_update)
  have l: "length (cx_p1 ?s) = N" "length (cx_p2 ?s) = N" using Cons.prems by simp_all
  from Cons.IH [OF e(5) pre l] obtain s' where
    r: "CX_retire DM1 DM2 es ?s = Some s'" and
    p: "length (cx_p1 s') = N" "length (cx_p2 s') = N"
      "\<forall>x<N. cx_p1 s' ! x = (if x \<in> set es then - 1 else cx_p1 ?s ! x)"
      "\<forall>x<N. cx_p2 s' ! x = (if x \<in> set es then - 1 else cx_p2 ?s ! x)"
      "cx_sc s' = cx_sc ?s" "cx_vEle s' = cx_vEle ?s" "cx_scSizeGroup s' = cx_scSizeGroup ?s"
      "cx_ub s' = cx_ub ?s" "cx_g s' = cx_g ?s" "cx_pickG s' = cx_pickG ?s" by blast
  have "\<forall>x<N. cx_p1 s' ! x = (if x \<in> set (e # es) then - 1 else cx_p1 s ! x)"
    using p(3) Cons.prems(3) e(1) by (auto simp add: nth_list_update)
  moreover have "\<forall>x<N. cx_p2 s' ! x = (if x \<in> set (e # es) then - 1 else cx_p2 s ! x)"
    using p(4) Cons.prems(4) e(1) by (auto simp add: nth_list_update)
  ultimately show ?case unfolding step using r p by simp
qed

lemma CX_trim_ok:
  assumes o: "distinct orig" "\<forall>e\<in>set orig. e < N" "target \<le> int (length orig)"
  shows "length Sel = length orig \<Longrightarrow>
         \<forall>i<length orig. Sel ! i = - 1 \<or> Sel ! i = int (orig ! i) \<Longrightarrow>
         set Temp = {orig ! i | i. i < length orig \<and> Sel ! i = - 1} \<Longrightarrow>
         distinct Temp \<Longrightarrow> length sc = N \<Longrightarrow> length vEle = N \<Longrightarrow>
         \<forall>x<N. sc ! x = (if x \<in> set Temp then pickG else sc0 ! x) \<Longrightarrow>
         \<forall>x<N. vEle ! x = (if x \<in> set Temp then - 1 else vEle0 ! x) \<Longrightarrow>
         n = nat (target - int (length Temp)) \<Longrightarrow>
         \<exists>Sel' Temp' sc' vEle' d'.
           CX_trim rnd (length orig) target pickG (Sel, Temp, sc, vEle, d) =
             Some (Sel', Temp', sc', vEle', d') \<and>
           distinct Temp' \<and> set Temp' \<subseteq> set orig \<and>
           int (length Temp') = max target (int (length Temp)) \<and>
           length sc' = N \<and> length vEle' = N \<and>
           (\<forall>x<N. sc' ! x = (if x \<in> set Temp' then pickG else sc0 ! x)) \<and>
           (\<forall>x<N. vEle' ! x = (if x \<in> set Temp' then - 1 else vEle0 ! x))"
proof (induction n arbitrary: Sel Temp sc vEle d)
  case 0
  then have fin: "\<not> int (length Temp) < target" by simp
  have sub: "set Temp \<subseteq> set orig" using "0.prems"(3) by auto
  have "CX_trim rnd (length orig) target pickG (Sel, Temp, sc, vEle, d) =
          Some (Sel, Temp, sc, vEle, d)"
    using fin by (simp add: CX_trim.simps)
  moreover have "int (length Temp) = max target (int (length Temp))" using fin by simp
  ultimately show ?case using "0.prems" sub by simp
next
  case (Suc n)
  let ?m = "length orig"
  from Suc.prems(9) have lt: "int (length Temp) < target" by simp
  have ex: "\<exists>i<?m. Sel ! i \<noteq> - 1"
  proof (rule ccontr)
    assume "\<not> (\<exists>i<?m. Sel ! i \<noteq> - 1)"
    then have "set Temp = {orig ! i | i. i < ?m}" using Suc.prems(3) by auto
    then have "set Temp = set orig" by (simp add: set_conv_nth)
    then have "card (set Temp) = card (set orig)" by simp
    then have "length Temp = length orig"
      using distinct_card [OF Suc.prems(4)] distinct_card [OF o(1)] by simp
    with lt o(3) show False by simp
  qed
  then obtain i where i: "i < ?m" "Sel ! i \<noteq> - 1" by blast
  have m0: "?m \<noteq> 0" using i(1) by (cases orig) simp_all
  from cyc_scan_finds [of i ?m "\<lambda>i. Sel ! i \<noteq> - 1" "rnd d mod ?m"] i
  obtain r where r: "cyc_scan ?m (\<lambda>i. Sel ! i \<noteq> - 1) ?m (rnd d mod ?m) = Some r" by blast
  from cyc_scan_Some [OF r] m0 have r1: "Sel ! r \<noteq> - 1" "r < ?m" by simp_all
  have re: "Sel ! r = int (orig ! r)" using Suc.prems(2) r1 by blast
  define e where "e = orig ! r"
  have eN: "e < N" using o(2) r1(2) by (simp add: e_def)
  have enot: "e \<notin> set Temp"
  proof
    assume "e \<in> set Temp"
    then obtain i' where i': "i' < ?m" "Sel ! i' = - 1" "e = orig ! i'"
      using Suc.prems(3) by auto
    then have "r = i'" using o(1) r1(2) by (simp add: e_def nth_eq_iff_index_eq)
    with i'(2) r1(1) show False by simp
  qed
  have step: "CX_trim rnd ?m target pickG (Sel, Temp, sc, vEle, d) =
              CX_trim rnd ?m target pickG
                (Sel[r := - 1], Temp @ [e], sc[e := pickG], vEle[e := - 1], d + 1)"
    using lt m0 r re by (simp add: CX_trim.simps [of _ _ _ _ Sel] e_def Let_def)
  have a1: "length (Sel[r := - 1]) = ?m" using Suc.prems(1) by simp
  have a2: "\<forall>i<?m. Sel[r := - 1] ! i = - 1 \<or> Sel[r := - 1] ! i = int (orig ! i)"
    using Suc.prems(1,2) r1(2) by (simp add: nth_list_update)
  have a3: "set (Temp @ [e]) = {orig ! i | i. i < ?m \<and> Sel[r := - 1] ! i = - 1}"
  proof (rule set_eqI)
    fix x
    show "(x \<in> set (Temp @ [e])) = (x \<in> {orig ! i | i. i < ?m \<and> Sel[r := - 1] ! i = - 1})"
    proof
      assume "x \<in> set (Temp @ [e])"
      then have "x \<in> set Temp \<or> x = e" by auto
      then show "x \<in> {orig ! i | i. i < ?m \<and> Sel[r := - 1] ! i = - 1}"
      proof
        assume "x \<in> set Temp"
        then obtain i' where "i' < ?m" "Sel ! i' = - 1" "x = orig ! i'"
          using Suc.prems(3) by auto
        then have "i' < ?m \<and> Sel[r := - 1] ! i' = - 1 \<and> x = orig ! i'"
          using Suc.prems(1) r1(2) by (simp add: nth_list_update)
        then show ?thesis by blast
      next
        assume "x = e"
        then have "r < ?m \<and> Sel[r := - 1] ! r = - 1 \<and> x = orig ! r"
          using r1(2) Suc.prems(1) by (simp add: e_def)
        then show ?thesis by blast
      qed
    next
      assume "x \<in> {orig ! i | i. i < ?m \<and> Sel[r := - 1] ! i = - 1}"
      then obtain i' where i': "i' < ?m" "Sel[r := - 1] ! i' = - 1" "x = orig ! i'" by blast
      show "x \<in> set (Temp @ [e])"
      proof (cases "i' = r")
        case True
        then show ?thesis using i'(3) by (simp add: e_def)
      next
        case False
        then have "Sel ! i' = - 1" using i'(2) by simp
        then have "x \<in> {orig ! i | i. i < ?m \<and> Sel ! i = - 1}" using i'(1,3) by blast
        then show ?thesis using Suc.prems(3) by simp
      qed
    qed
  qed
  have a4: "distinct (Temp @ [e])" using Suc.prems(4) enot by simp
  have a5: "length (sc[e := pickG]) = N" "length (vEle[e := - 1]) = N"
    using Suc.prems(5,6) by simp_all
  have a6: "\<forall>x<N. sc[e := pickG] ! x = (if x \<in> set (Temp @ [e]) then pickG else sc0 ! x)"
    using Suc.prems(5,7) eN by (simp add: nth_list_update)
  have a7: "\<forall>x<N. vEle[e := - 1] ! x = (if x \<in> set (Temp @ [e]) then - 1 else vEle0 ! x)"
    using Suc.prems(6,8) eN by (simp add: nth_list_update)
  have a8: "n = nat (target - int (length (Temp @ [e])))" using Suc.prems(9) by simp
  from Suc.IH [OF a1 a2 a3 a4 a5 a6 a7 a8, of "d + 1"]
  obtain Sel' Temp' sc' vEle' d' where
    R: "CX_trim rnd ?m target pickG
          (Sel[r := - 1], Temp @ [e], sc[e := pickG], vEle[e := - 1], d + 1) =
          Some (Sel', Temp', sc', vEle', d')"
      "distinct Temp'" "set Temp' \<subseteq> set orig"
      "int (length Temp') = max target (int (length (Temp @ [e])))"
      "length sc' = N" "length vEle' = N"
      "\<forall>x<N. sc' ! x = (if x \<in> set Temp' then pickG else sc0 ! x)"
      "\<forall>x<N. vEle' ! x = (if x \<in> set Temp' then - 1 else vEle0 ! x)" by blast
  have "int (length Temp') = max target (int (length Temp))" using R(4) lt by simp
  with R step show ?case by simp
qed

lemma CX_select_ok:
  assumes len: "length (cx_sc s) = N" "length (cx_vEle s) = N"
    and opn: "j0 < K" "cx_ub s ! j0 \<noteq> - 1"
    and ub: "\<forall>j<K. cx_ub s ! j \<noteq> - 1 \<longrightarrow> 0 \<le> cx_ub s ! j"
    and Nb: "N < 999999"
  shows "\<exists>Temp s'. CX_select rnd N K gDiv pSel s = Some (Temp, s') \<and>
           distinct Temp \<and>
           (\<forall>e\<in>set Temp. e < N \<and> pSel ! e = CX_pick_group gDiv K (cx_g s)) \<and>
           0 \<le> cx_pickG s' \<and> nat (cx_pickG s') < K \<and> cx_ub s ! nat (cx_pickG s') \<noteq> - 1 \<and>
           int (length Temp) \<le> cx_ub s ! nat (cx_pickG s') \<and>
           length (cx_sc s') = N \<and> length (cx_vEle s') = N \<and>
           (\<forall>x<N. cx_sc s' ! x = (if x \<in> set Temp then cx_pickG s' else cx_sc s ! x)) \<and>
           (\<forall>x<N. cx_vEle s' ! x = (if x \<in> set Temp then - 1 else cx_vEle s ! x)) \<and>
           cx_scSizeGroup s' = cx_scSizeGroup s \<and> cx_ub s' = cx_ub s \<and>
           cx_p1 s' = cx_p1 s \<and> cx_p2 s' = cx_p2 s \<and>
           cx_g s' = CX_pick_group gDiv K (cx_g s)"
proof -
  define g where "g = CX_pick_group gDiv K (cx_g s)"
  define orig where "orig = filter (\<lambda>j. pSel ! j = g) [0..<N]"
  define m where "m = length orig"
  define SelGroup where
    "SelGroup = filter (\<lambda>j. cx_ub s ! j \<noteq> - 1 \<and> int m \<le> cx_ub s ! j) [0..<K]"
  have d: "distinct orig" by (simp add: orig_def)
  have mem: "\<forall>e\<in>set orig. e < N \<and> pSel ! e = g" by (simp add: orig_def)
  have memN: "\<forall>e\<in>set orig. e < N" using mem by simp
  have mN: "m \<le> N"
    using length_filter_le [of "\<lambda>j. pSel ! j = g" "[0..<N]"] by (simp add: m_def orig_def)
  show ?thesis
  proof (cases "SelGroup = []")
    case True
    have none: "\<forall>j<K. cx_ub s ! j \<noteq> - 1 \<longrightarrow> cx_ub s ! j < int m"
    proof (intro allI impI)
      fix j assume j: "j < K" "cx_ub s ! j \<noteq> - 1"
      have "j \<notin> set SelGroup" using True by simp
      then show "cx_ub s ! j < int m" using j by (simp add: SelGroup_def)
    qed
    obtain num pickG where sf: "CX_shortfall (cx_ub s) K m (cx_pickG s) = (num, pickG)"
      by (cases "CX_shortfall (cx_ub s) K m (cx_pickG s)")
    from CX_shortfall_inv [where ub = "cx_ub s" and n = K and lengthSE = m and pg = "cx_pickG s"] sf
    have q: "num < 999999 \<longrightarrow> 0 \<le> pickG \<and> nat pickG < K \<and> cx_ub s ! nat pickG \<noteq> - 1 \<and>
                num = int m - cx_ub s ! nat pickG"
      "\<forall>j<K. cx_ub s ! j \<noteq> - 1 \<longrightarrow> num \<le> int m - cx_ub s ! j" by auto
    from q(2) opn have "num \<le> int m - cx_ub s ! j0" by blast
    moreover from ub opn have "0 \<le> cx_ub s ! j0" by blast
    ultimately have "num < 999999" using mN Nb by simp
    with q(1) have p: "0 \<le> pickG" "nat pickG < K" "cx_ub s ! nat pickG \<noteq> - 1"
      "num = int m - cx_ub s ! nat pickG" by simp_all
    have t0: "0 \<le> cx_ub s ! nat pickG" using ub p(2,3) by blast
    have t1: "cx_ub s ! nat pickG < int m" using none p(2,3) by blast
    define target where "target = int m - num"
    have tg: "target = cx_ub s ! nat pickG" using p(4) by (simp add: target_def)
    have o3: "target \<le> int (length orig)" using tg t1 by (simp add: m_def)
    have b1: "length (map int orig) = length orig" by simp
    have b2: "\<forall>i<length orig. map int orig ! i = - 1 \<or> map int orig ! i = int (orig ! i)"
      by simp
    have b3: "set [] = {orig ! i | i. i < length orig \<and> map int orig ! i = - 1}" by simp
    have b4: "distinct ([] :: nat list)" by simp
    have b7: "\<forall>x<N. cx_sc s ! x = (if x \<in> set [] then pickG else cx_sc s ! x)" by simp
    have b8: "\<forall>x<N. cx_vEle s ! x = (if x \<in> set [] then - 1 else cx_vEle s ! x)" by simp
    have b9: "nat target = nat (target - int (length ([] :: nat list)))" by simp
    from CX_trim_ok [OF d memN o3 b1 b2 b3 b4 len b7 b8 b9, of rnd "cx_draws s"]
    obtain Sel' Temp' sc' vEle' d' where
      R: "CX_trim rnd (length orig) target pickG (map int orig, [], cx_sc s, cx_vEle s, cx_draws s) =
            Some (Sel', Temp', sc', vEle', d')"
        "distinct Temp'" "set Temp' \<subseteq> set orig"
        "int (length Temp') = max target (int (length ([] :: nat list)))"
        "length sc' = N" "length vEle' = N"
        "\<forall>x<N. sc' ! x = (if x \<in> set Temp' then pickG else cx_sc s ! x)"
        "\<forall>x<N. vEle' ! x = (if x \<in> set Temp' then - 1 else cx_vEle s ! x)" by blast
    have lt: "int (length Temp') = cx_ub s ! nat pickG" using R(4) tg t0 by simp
    have res: "CX_select rnd N K gDiv pSel s =
                 Some (Temp', s\<lparr>cx_g := g, cx_pickG := pickG, cx_sc := sc', cx_vEle := vEle',
                                cx_draws := d'\<rparr>)"
      using True sf R(1)
      by (simp add: CX_select_def Let_def g_def [symmetric] orig_def [symmetric]
          m_def [symmetric] SelGroup_def [symmetric] target_def [symmetric])
    have "\<forall>e\<in>set Temp'. e < N \<and> pSel ! e = g" using R(3) mem by blast
    then show ?thesis
      unfolding res g_def [symmetric] using R(2,5,6,7,8) p(1,2,3) lt by simp
  next
    case False
    define pickG where "pickG = int (SelGroup ! (rnd (cx_draws s) mod length SelGroup))"
    have "SelGroup ! (rnd (cx_draws s) mod length SelGroup) \<in> set SelGroup"
      using False by simp
    then have p: "nat pickG < K" "cx_ub s ! nat pickG \<noteq> - 1" "int m \<le> cx_ub s ! nat pickG"
      by (simp_all add: pickG_def SelGroup_def)
    have p0: "0 \<le> pickG" by (simp add: pickG_def)
    have c1: "\<forall>e\<in>set orig. e < length (cx_sc s)" using memN len by simp
    have c2: "\<forall>e\<in>set orig. e < length (cx_vEle s)" using memN len by simp
    define sc' where "sc' = fold (\<lambda>e sc. sc[nat e := pickG]) (map int orig) (cx_sc s)"
    define vEle' where "vEle' = fold (\<lambda>e vEle. vEle[nat e := - 1]) (map int orig) (cx_vEle s)"
    from fold_assign_nth [OF c1, of pickG] len
    have s1: "length sc' = N" "\<forall>x<N. sc' ! x = (if x \<in> set orig then pickG else cx_sc s ! x)"
      by (simp_all add: sc'_def)
    from fold_assign_nth [OF c2, of "- 1"] len
    have s2: "length vEle' = N"
      "\<forall>x<N. vEle' ! x = (if x \<in> set orig then - 1 else cx_vEle s ! x)"
      by (simp_all add: vEle'_def)
    have mo: "map (nat \<circ> int) orig = orig" by (simp add: map_idI)
    have res: "CX_select rnd N K gDiv pSel s =
                 Some (orig, s\<lparr>cx_g := g, cx_pickG := pickG, cx_sc := sc', cx_vEle := vEle',
                                cx_draws := cx_draws s + 1\<rparr>)"
      using False mo
      by (simp add: CX_select_def Let_def g_def [symmetric] orig_def [symmetric]
          m_def [symmetric] SelGroup_def [symmetric] pickG_def [symmetric]
          sc'_def [symmetric] vEle'_def [symmetric])
    show ?thesis
      unfolding res g_def [symmetric] using d mem s1 s2 p p0 by (simp add: m_def)
  qed
qed

lemma members_all: "\<forall>j<K. xs ! j = y \<Longrightarrow> members K xs y = int K"
  by (simp add: members_def)

lemma members_assign_other:
  assumes "\<forall>x<N. sc' ! x = (if x \<in> T then y else sc ! x)"
    and "\<forall>x\<in>T. sc ! x \<noteq> z" and "z \<noteq> y"
  shows "members N sc' z = members N sc z"
  unfolding members_def
proof (rule sum.cong)
  fix x assume "x \<in> {..<N}"
  then have "x < N" by simp
  with assms show "(if sc' ! x = z then 1 else 0) = (if sc ! x = z then 1 else (0::int))"
    by auto
qed simp

lemma members_assign_new:
  assumes p: "\<forall>x<N. sc' ! x = (if x \<in> set T then y else sc ! x)"
    and d: "distinct T" and b: "\<forall>x\<in>set T. x < N" and z: "members N sc y = 0"
  shows "members N sc' y = int (length T)"
proof -
  from z have n: "\<forall>e<N. sc ! e \<noteq> y" by (simp add: members_zero)
  have "members N sc' y = (\<Sum>x\<in>{..<N}. if x \<in> set T then 1 else 0)"
    unfolding members_def
  proof (rule sum.cong)
    fix x assume "x \<in> {..<N}"
    then have "x < N" by simp
    with p n show "(if sc' ! x = y then 1 else 0) = (if x \<in> set T then 1 else (0::int))"
      by auto
  qed simp
  also have "\<dots> = (\<Sum>x\<in>{..<N} \<inter> set T. 1)"
    by (rule sum.inter_restrict [symmetric]) simp
  also have "{..<N} \<inter> set T = set T" using b by auto
  also have "(\<Sum>x\<in>set T. (1::int)) = int (card (set T))" by simp
  also have "\<dots> = int (length T)" using d by (simp add: distinct_card)
  finally show ?thesis .
qed

lemma CX_iter_ok:
  assumes inv: "CX_inv N K UB i s" and iK: "i < K" and UB0: "\<forall>j<K. 0 \<le> UB ! j"
    and Nb: "N < 999999"
  shows "\<exists>s'. CX_iter rnd RAND_MAX N K DM_p1 DM_p2 s = Some s' \<and> CX_inv N K UB (Suc i) s'"
proof -
  let ?sc = "cx_sc s" and ?S = "cx_scSizeGroup s" and ?ub = "cx_ub s"
  from inv have wf: "cx_wf N K ?sc (cx_vEle s) ?S"
    and lub: "length ?ub = K" and lp: "length (cx_p1 s) = N" "length (cx_p2 s) = N"
    and pr: "\<forall>e<N. if ?sc ! e = - 1 then 0 \<le> cx_p1 s ! e \<and> 0 \<le> cx_p2 s ! e
                   else cx_p1 s ! e = - 1 \<and> cx_p2 s ! e = - 1"
    and ur: "\<forall>j<K. if ?ub ! j = - 1 then ?S ! j \<le> UB ! j
                   else ?ub ! j = UB ! j \<and> ?S ! j = 0"
    and cl: "members K ?ub (- 1) = int i"
    and g1: "cx_g s = - 1 \<longrightarrow> (\<forall>e<N. ?sc ! e = - 1)"
    by (simp_all add: CX_inv_def)
  from wf have lsc: "length ?sc = N" and lv: "length (cx_vEle s) = N" and lS: "length ?S = K"
    and rng: "\<forall>e<N. ?sc ! e = - 1 \<or> (0 \<le> ?sc ! e \<and> ?sc ! e < int K)"
    and fr: "\<forall>e<N. (cx_vEle s ! e \<noteq> - 1) = (?sc ! e = - 1)"
    and sz: "\<forall>j<K. ?S ! j = members N ?sc (int j)"
    by (simp_all add: cx_wf_def)
  define sd where "sd = s\<lparr>cx_draws := cx_draws s + 1\<rparr>"
  have ex: "\<exists>j<K. ?ub ! j \<noteq> - 1"
  proof (rule ccontr)
    assume "\<not> ?thesis"
    then have "\<forall>j<K. ?ub ! j = - 1" by simp
    from members_all [OF this] cl iK show False by simp
  qed
  then obtain j0 where j0: "j0 < K" "cx_ub sd ! j0 \<noteq> - 1" by (auto simp add: sd_def)
  have ubnn: "\<forall>j<K. cx_ub sd ! j \<noteq> - 1 \<longrightarrow> 0 \<le> cx_ub sd ! j"
  proof (intro allI impI)
    fix j assume j: "j < K" "cx_ub sd ! j \<noteq> - 1"
    with ur have "?ub ! j = UB ! j" by (auto simp add: sd_def)
    with UB0 j(1) show "0 \<le> cx_ub sd ! j" by (simp add: sd_def)
  qed
  have lsd: "length (cx_sc sd) = N" "length (cx_vEle sd) = N"
    using lsc lv by (simp_all add: sd_def)
  define coin where "coin = (real (rnd (cx_draws s)) / (real RAND_MAX + 1) < 1 / 2)"
  define gDiv where "gDiv = (if coin then cx_gDiv_p1 sd else cx_gDiv_p2 sd)"
  define pSel where "pSel = (if coin then cx_p1 sd else cx_p2 sd)"
  have ps: "pSel = cx_p1 s \<or> pSel = cx_p2 s" by (simp add: pSel_def sd_def)
  have it: "CX_iter rnd RAND_MAX N K DM_p1 DM_p2 s =
              (case CX_select rnd N K gDiv pSel sd of
                 None \<Rightarrow> None
               | Some (SelectEleTemp, s1) \<Rightarrow>
                   (case CX_retire DM_p1 DM_p2 SelectEleTemp s1 of
                      None \<Rightarrow> None
                    | Some s2 \<Rightarrow>
                        if cx_pickG s2 < 0 \<or> int K \<le> cx_pickG s2 then None
                        else Some (s2\<lparr>cx_ub := (cx_ub s2)[nat (cx_pickG s2) := - 1],
                                      cx_scSizeGroup := (cx_scSizeGroup s2)
                                         [nat (cx_pickG s2) := int (length SelectEleTemp)]\<rparr>)))"
  proof (cases coin)
    case True
    then show ?thesis
      unfolding CX_iter_def Let_def gDiv_def pSel_def sd_def coin_def by simp
  next
    case False
    then show ?thesis
      unfolding CX_iter_def Let_def gDiv_def pSel_def sd_def coin_def by simp
  qed
  define g where "g = CX_pick_group gDiv K (cx_g s)"
  from CX_select_ok [OF lsd j0 ubnn Nb, of rnd gDiv pSel]
  obtain Temp s1 where big:
    "CX_select rnd N K gDiv pSel sd = Some (Temp, s1) \<and>
     distinct Temp \<and>
     (\<forall>e\<in>set Temp. e < N \<and> pSel ! e = CX_pick_group gDiv K (cx_g sd)) \<and>
     0 \<le> cx_pickG s1 \<and> nat (cx_pickG s1) < K \<and> cx_ub sd ! nat (cx_pickG s1) \<noteq> - 1 \<and>
     int (length Temp) \<le> cx_ub sd ! nat (cx_pickG s1) \<and>
     length (cx_sc s1) = N \<and> length (cx_vEle s1) = N \<and>
     (\<forall>x<N. cx_sc s1 ! x = (if x \<in> set Temp then cx_pickG s1 else cx_sc sd ! x)) \<and>
     (\<forall>x<N. cx_vEle s1 ! x = (if x \<in> set Temp then - 1 else cx_vEle sd ! x)) \<and>
     cx_scSizeGroup s1 = cx_scSizeGroup sd \<and> cx_ub s1 = cx_ub sd \<and>
     cx_p1 s1 = cx_p1 sd \<and> cx_p2 s1 = cx_p2 sd \<and>
     cx_g s1 = CX_pick_group gDiv K (cx_g sd)"
    by (elim exE)
  have sdf: "cx_g sd = cx_g s" "cx_ub sd = ?ub" "cx_sc sd = ?sc" "cx_vEle sd = cx_vEle s"
    "cx_scSizeGroup sd = ?S" "cx_p1 sd = cx_p1 s" "cx_p2 sd = cx_p2 s"
    by (simp_all add: sd_def)
  note big' = big [unfolded sdf g_def [symmetric]]
  from big' have sel: "CX_select rnd N K gDiv pSel sd = Some (Temp, s1)" by (elim conjE)
  from big' have dT: "distinct Temp" by (elim conjE)
  from big' have mT: "\<forall>e\<in>set Temp. e < N \<and> pSel ! e = g" by (elim conjE)
  from big' have pk: "0 \<le> cx_pickG s1" "nat (cx_pickG s1) < K" "?ub ! nat (cx_pickG s1) \<noteq> - 1"
      "int (length Temp) \<le> ?ub ! nat (cx_pickG s1)" by simp_all
  from big' have l1: "length (cx_sc s1) = N" "length (cx_vEle s1) = N"
    by simp_all
  from big' have sc1: "\<forall>x<N. cx_sc s1 ! x = (if x \<in> set Temp then cx_pickG s1 else ?sc ! x)"
    by (elim conjE)
  from big' have v1: "\<forall>x<N. cx_vEle s1 ! x = (if x \<in> set Temp then - 1 else cx_vEle s ! x)"
    by (elim conjE)
  from big' have same1: "cx_scSizeGroup s1 = ?S" "cx_ub s1 = ?ub" "cx_p1 s1 = cx_p1 s"
    "cx_p2 s1 = cx_p2 s" "cx_g s1 = g" by simp_all
  have gr: "g = cx_g s \<or> (0 \<le> g \<and> g < int K)"
    unfolding g_def by (rule CX_pick_group_range)
  have TN: "\<forall>e\<in>set Temp. e < N" using mT by simp
  have free: "\<forall>e\<in>set Temp. ?sc ! e = - 1"
  proof
    fix e assume e: "e \<in> set Temp"
    with mT have eN: "e < N" and pe: "pSel ! e = g" by simp_all
    show "?sc ! e = - 1"
    proof (rule ccontr)
      assume n: "?sc ! e \<noteq> - 1"
      with pr eN have "cx_p1 s ! e = - 1 \<and> cx_p2 s ! e = - 1" by auto
      with ps pe have "g = - 1" by auto
      with gr have "cx_g s = - 1" by auto
      with g1 eN n show False by simp
    qed
  qed
  have pnn: "\<forall>e\<in>set Temp. e < N \<and> 0 \<le> cx_p1 s1 ! e \<and> 0 \<le> cx_p2 s1 ! e"
  proof
    fix e assume e: "e \<in> set Temp"
    with TN free have "e < N" "?sc ! e = - 1" by simp_all
    with pr show "e < N \<and> 0 \<le> cx_p1 s1 ! e \<and> 0 \<le> cx_p2 s1 ! e"
      unfolding same1 by auto
  qed
  have lp1: "length (cx_p1 s1) = N" "length (cx_p2 s1) = N" using lp same1 by simp_all
  from CX_retire_ok [OF dT pnn lp1, of DM_p1 DM_p2]
  obtain s2 where
    ret: "CX_retire DM_p1 DM_p2 Temp s1 = Some s2" and
    l2: "length (cx_p1 s2) = N" "length (cx_p2 s2) = N" and
    p12: "\<forall>x<N. cx_p1 s2 ! x = (if x \<in> set Temp then - 1 else cx_p1 s1 ! x)" and
    p22: "\<forall>x<N. cx_p2 s2 ! x = (if x \<in> set Temp then - 1 else cx_p2 s1 ! x)" and
    same2: "cx_sc s2 = cx_sc s1" "cx_vEle s2 = cx_vEle s1" "cx_scSizeGroup s2 = cx_scSizeGroup s1"
      "cx_ub s2 = cx_ub s1" "cx_g s2 = cx_g s1" "cx_pickG s2 = cx_pickG s1"
    by blast
  define pickG where "pickG = cx_pickG s1"
  define k where "k = nat pickG"
  have kK: "k < K" and k0: "0 \<le> pickG" and ki: "int k = pickG"
    and kop: "?ub ! k \<noteq> - 1" and kle: "int (length Temp) \<le> ?ub ! k"
    using pk by (simp_all add: pickG_def k_def)
  define s' where "s' = s2\<lparr>cx_ub := ?ub[k := - 1], cx_scSizeGroup := ?S[k := int (length Temp)]\<rparr>"
  have res: "CX_iter rnd RAND_MAX N K DM_p1 DM_p2 s = Some s'"
    unfolding it sel using ret pk
    by (simp add: same2 same1 s'_def k_def pickG_def)
  have sc': "cx_sc s' = cx_sc s1" and v': "cx_vEle s' = cx_vEle s1"
    and S': "cx_scSizeGroup s' = ?S[k := int (length Temp)]" and ub': "cx_ub s' = ?ub[k := - 1]"
    and p1': "cx_p1 s' = cx_p1 s2" and p2': "cx_p2 s' = cx_p2 s2" and g': "cx_g s' = g"
    by (simp_all add: s'_def same2 same1)
  have scp: "\<forall>x<N. cx_sc s1 ! x = (if x \<in> set Temp then pickG else ?sc ! x)"
    using sc1 by (simp add: pickG_def)
  have kopen: "?ub ! k = UB ! k" "?S ! k = 0" using ur kK kop by auto
  have mk0: "members N ?sc pickG = 0" using sz kK kopen(2) ki by auto
  have w1: "\<forall>e<N. cx_sc s1 ! e = - 1 \<or> (0 \<le> cx_sc s1 ! e \<and> cx_sc s1 ! e < int K)"
  proof (intro allI impI)
    fix e assume e: "e < N"
    show "cx_sc s1 ! e = - 1 \<or> (0 \<le> cx_sc s1 ! e \<and> cx_sc s1 ! e < int K)"
    proof (cases "e \<in> set Temp")
      case True
      with scp e have "cx_sc s1 ! e = pickG" by simp
      with k0 kK ki show ?thesis by simp
    next
      case False
      with scp e have "cx_sc s1 ! e = ?sc ! e" by simp
      with rng e show ?thesis by simp
    qed
  qed
  have w2: "\<forall>e<N. (cx_vEle s1 ! e \<noteq> - 1) = (cx_sc s1 ! e = - 1)"
  proof (intro allI impI)
    fix e assume e: "e < N"
    show "(cx_vEle s1 ! e \<noteq> - 1) = (cx_sc s1 ! e = - 1)"
    proof (cases "e \<in> set Temp")
      case True
      with scp v1 e have "cx_sc s1 ! e = pickG" "cx_vEle s1 ! e = - 1" by simp_all
      with k0 show ?thesis by simp
    next
      case False
      with scp v1 e have "cx_sc s1 ! e = ?sc ! e" "cx_vEle s1 ! e = cx_vEle s ! e" by simp_all
      with fr e show ?thesis by simp
    qed
  qed
  have w3: "\<forall>j<K. ?S[k := int (length Temp)] ! j = members N (cx_sc s1) (int j)"
  proof (intro allI impI)
    fix j assume j: "j < K"
    show "?S[k := int (length Temp)] ! j = members N (cx_sc s1) (int j)"
    proof (cases "j = k")
      case True
      have "members N (cx_sc s1) pickG = int (length Temp)"
        by (rule members_assign_new [OF scp dT TN mk0])
      with True kK lS ki show ?thesis by simp
    next
      case False
      have a: "\<forall>x\<in>set Temp. ?sc ! x \<noteq> int j" using free by simp
      have b: "int j \<noteq> pickG" using False ki by auto
      have "members N (cx_sc s1) (int j) = members N ?sc (int j)"
        by (rule members_assign_other [OF scp a b])
      with False sz j show ?thesis by simp
    qed
  qed
  have wf': "cx_wf N K (cx_sc s') (cx_vEle s') (cx_scSizeGroup s')"
    unfolding sc' v' S' cx_wf_def using l1 lS w1 w2 w3 by simp
  have pr': "\<forall>e<N. if cx_sc s' ! e = - 1 then 0 \<le> cx_p1 s' ! e \<and> 0 \<le> cx_p2 s' ! e
                    else cx_p1 s' ! e = - 1 \<and> cx_p2 s' ! e = - 1"
  proof (intro allI impI)
    fix e assume e: "e < N"
    show "if cx_sc s' ! e = - 1 then 0 \<le> cx_p1 s' ! e \<and> 0 \<le> cx_p2 s' ! e
          else cx_p1 s' ! e = - 1 \<and> cx_p2 s' ! e = - 1"
    proof (cases "e \<in> set Temp")
      case True
      with scp p12 p22 e have "cx_sc s1 ! e = pickG" "cx_p1 s2 ! e = - 1" "cx_p2 s2 ! e = - 1"
        by simp_all
      with k0 show ?thesis unfolding sc' p1' p2' by simp
    next
      case False
      with scp p12 p22 e have "cx_sc s1 ! e = ?sc ! e" "cx_p1 s2 ! e = cx_p1 s ! e"
        "cx_p2 s2 ! e = cx_p2 s ! e" by (simp_all add: same1)
      with pr e show ?thesis unfolding sc' p1' p2' by simp
    qed
  qed
  have ur': "\<forall>j<K. if cx_ub s' ! j = - 1 then cx_scSizeGroup s' ! j \<le> UB ! j
                    else cx_ub s' ! j = UB ! j \<and> cx_scSizeGroup s' ! j = 0"
  proof (intro allI impI)
    fix j assume j: "j < K"
    show "if cx_ub s' ! j = - 1 then cx_scSizeGroup s' ! j \<le> UB ! j
          else cx_ub s' ! j = UB ! j \<and> cx_scSizeGroup s' ! j = 0"
    proof (cases "j = k")
      case True
      with kK lub lS kle kopen show ?thesis unfolding ub' S' by simp
    next
      case False
      with ur j show ?thesis unfolding ub' S' by simp
    qed
  qed
  have cl': "members K (cx_ub s') (- 1) = int (Suc i)"
    unfolding ub' using members_update [OF kK lub, of "- 1" "- 1"] kop cl by simp
  have g1': "cx_g s' = - 1 \<longrightarrow> (\<forall>e<N. cx_sc s' ! e = - 1)"
  proof
    assume "cx_g s' = - 1"
    then have gm: "g = - 1" by (simp add: g')
    with gr have "cx_g s = - 1" by auto
    with g1 have all: "\<forall>e<N. ?sc ! e = - 1" by simp
    have "set Temp = {}"
    proof (cases Temp)
      case Nil
      then show ?thesis by simp
    next
      case (Cons e es)
      then have e: "e \<in> set Temp" by simp
      with mT gm have eN: "e < N" and pe: "pSel ! e = - 1" by simp_all
      from all eN pr have "0 \<le> cx_p1 s ! e \<and> 0 \<le> cx_p2 s ! e" by auto
      with ps pe have False by auto
      then show ?thesis ..
    qed
    with scp all show "\<forall>e<N. cx_sc s' ! e = - 1" unfolding sc' by simp
  qed
  have "CX_inv N K UB (Suc i) s'"
    unfolding CX_inv_def using wf' pr' ur' cl' g1' lub l2 by (simp add: ub' p1' p2')
  with res show ?thesis by blast
qed

lemma CX_phase1_ok:
  assumes UB0: "\<forall>j<K. 0 \<le> UB ! j" and Nb: "N < 999999"
  shows "CX_inv N K UB i s \<Longrightarrow> i + n = K \<Longrightarrow>
         \<exists>s'. CX_phase1 n rnd RAND_MAX N K DM_p1 DM_p2 s = Some s' \<and> CX_inv N K UB K s'"
proof (induction n arbitrary: i s)
  case 0
  then show ?case by simp
next
  case (Suc n)
  from Suc.prems(2) have iK: "i < K" by simp
  from CX_iter_ok [OF Suc.prems(1) iK UB0 Nb, of rnd RAND_MAX DM_p1 DM_p2]
  obtain s1 where s1: "CX_iter rnd RAND_MAX N K DM_p1 DM_p2 s = Some s1"
    "CX_inv N K UB (Suc i) s1" by blast
  from Suc.prems(2) have "Suc i + n = K" by simp
  from Suc.IH [OF s1(2) this] s1(1) show ?case by simp
qed

lemma CX_init_inv:
  assumes UB0: "\<forall>j<K. 0 \<le> UB ! j"
  shows "CX_inv N K UB 0
           \<lparr>cx_sc = replicate N (- 1), cx_scSizeGroup = replicate K 0,
            cx_vEle = map int [0..<N], cx_ub = map (\<lambda>i. UB ! i) [0..<K],
            cx_p1 = map (\<lambda>i. int (partition1 ! i)) [0..<N],
            cx_p2 = map (\<lambda>i. int (partition2 ! i)) [0..<N],
            cx_gDiv_p1 = gDiv1, cx_gDiv_p2 = gDiv2,
            cx_g = g0, cx_pickG = pickG0, cx_draws = 0\<rparr>"
proof -
  have m0: "\<forall>j<K. members N (replicate N (- 1)) (int j) = 0"
    by (simp add: members_zero)
  have wf: "cx_wf N K (replicate N (- 1)) (map int [0..<N]) (replicate K 0)"
    using m0 by (simp add: cx_wf_def)
  have op: "\<forall>j<K. UB ! j \<noteq> - 1"
  proof (intro allI impI)
    fix j assume "j < K"
    with UB0 have "0 \<le> UB ! j" by simp
    then show "UB ! j \<noteq> - 1" by simp
  qed
  have cl: "members K (map (\<lambda>i. UB ! i) [0..<K]) (- 1) = 0"
    using op by (simp add: members_zero)
  show ?thesis
    unfolding CX_inv_def using wf op cl by simp
qed

lemma feasible_bounds:
  assumes "feasible N K LB UB p S"
  shows "(\<forall>j<K. LB ! j \<le> UB ! j) \<and> (\<Sum>j<K. LB ! j) \<le> int N \<and> int N \<le> (\<Sum>j<K. UB ! j)"
proof -
  from assms have l: "length S = K" and s: "sum_list S = int N"
    and b: "\<forall>g<K. LB ! g \<le> S ! g \<and> S ! g \<le> UB ! g"
    by (simp_all add: feasible_def)
  have "map (\<lambda>j. S ! j) [0..<K] = S" unfolding l [symmetric] by (rule map_nth)
  then have "sum_list S = sum_list (map (\<lambda>j. S ! j) [0..<K])" by simp
  then have e: "(\<Sum>j<K. S ! j) = int N" using s by (simp add: sum_list_upt)
  have "(\<Sum>j<K. LB ! j) \<le> (\<Sum>j<K. S ! j)" by (rule sum_mono) (use b in simp)
  moreover have "(\<Sum>j<K. S ! j) \<le> (\<Sum>j<K. UB ! j)" by (rule sum_mono) (use b in simp)
  moreover have "\<forall>j<K. LB ! j \<le> UB ! j"
  proof (intro allI impI)
    fix j assume "j < K"
    with b have "LB ! j \<le> S ! j" "S ! j \<le> UB ! j" by simp_all
    then show "LB ! j \<le> UB ! j" by simp
  qed
  ultimately show ?thesis using e by simp
qed


subsection \<open>Concrete runs\<close>

lemma feasible_example4a: "feasible 4 2 [1, 1] [3, 3] [0, 0, 1, 1] [2, 2]"
  by (simp add: feasible_def less_Suc_eq eval_nat_numeral all_conj_distrib conj_disj_distribR
      ex_disj_distrib imp_conjR imp_disjL all_simps)

lemma feasible_example4b: "feasible 4 2 [1, 1] [3, 3] [0, 1, 0, 1] [2, 2]"
  by (simp add: feasible_def less_Suc_eq eval_nat_numeral all_conj_distrib imp_disjL)


lemma upt3: "[0..<3] = [0, 1, 2]"
  by (simp add: upt_rec)

lemma gDiv_example: "Build_GroupDiv_For_Crossover 2 example_D [0, 0] = (\<lambda>i. 0)(0 := 2)"
  by (simp add: Build_GroupDiv_For_Crossover_def upt2 example_D_val)

lemma DM_example:
  "fst (Build_Delta_Matrix 2 example_D [0, 0]) 0 0 = 1"
  "fst (Build_Delta_Matrix 2 example_D [0, 0]) (Suc 0) 0 = 1"
  by (simp_all add: Build_Delta_Matrix_def Let_def Build_Delta_Matrix_DM_eq gs2 example_D_val)

lemma pick_example:
  "CX_pick_group ((\<lambda>i. 0)(0 := 2)) 3 g = 0"
  "CX_pick_group ((\<lambda>i. 0)(0 := 0)) 3 g = 0"
  by (simp_all add: CX_pick_group_def upt3 trunc_int_def)

lemma select_example1:
  "CX_select (\<lambda>k. Suc 0) 2 3 ((\<lambda>i. 0)(0 := 2)) [0, 0]
     \<lparr>cx_sc = [- 1, - 1], cx_scSizeGroup = [0, 0, 0], cx_vEle = [0, 1], cx_ub = [2, 2, 2],
      cx_p1 = [0, 0], cx_p2 = [0, 0], cx_gDiv_p1 = (\<lambda>i. 0)(0 := 2),
      cx_gDiv_p2 = (\<lambda>i. 0)(0 := 2), cx_g = 0, cx_pickG = 0, cx_draws = Suc 0\<rparr> =
   Some ([0, 1],
     \<lparr>cx_sc = [1, 1], cx_scSizeGroup = [0, 0, 0], cx_vEle = [- 1, - 1], cx_ub = [2, 2, 2],
      cx_p1 = [0, 0], cx_p2 = [0, 0], cx_gDiv_p1 = (\<lambda>i. 0)(0 := 2),
      cx_gDiv_p2 = (\<lambda>i. 0)(0 := 2), cx_g = 0, cx_pickG = 1, cx_draws = 2\<rparr>)"
  by (simp add: CX_select_def Let_def pick_example upt2 upt3)

lemma iter_example1:
  "CX_iter (\<lambda>k. Suc 0) 32767 2 3 (fst (Build_Delta_Matrix 2 example_D [0, 0]))
     (fst (Build_Delta_Matrix 2 example_D [0, 0]))
     \<lparr>cx_sc = [- 1, - 1], cx_scSizeGroup = [0, 0, 0], cx_vEle = [0, 1], cx_ub = [2, 2, 2],
      cx_p1 = [0, 0], cx_p2 = [0, 0], cx_gDiv_p1 = (\<lambda>i. 0)(0 := 2),
      cx_gDiv_p2 = (\<lambda>i. 0)(0 := 2), cx_g = 0, cx_pickG = 0, cx_draws = 0\<rparr> =
   Some \<lparr>cx_sc = [1, 1], cx_scSizeGroup = [0, 2, 0], cx_vEle = [- 1, - 1], cx_ub = [2, - 1, 2],
      cx_p1 = [- 1, - 1], cx_p2 = [- 1, - 1], cx_gDiv_p1 = (\<lambda>i. 0)(0 := 0),
      cx_gDiv_p2 = (\<lambda>i. 0)(0 := 0), cx_g = 0, cx_pickG = 1, cx_draws = 2\<rparr>"
  by (simp add: CX_iter_def Let_def select_example1 DM_example)

lemma iter_example2:
  "CX_iter (\<lambda>k. Suc 0) 32767 2 3 DM_p1 DM_p2
     \<lparr>cx_sc = [1, 1], cx_scSizeGroup = [0, 2, 0], cx_vEle = [- 1, - 1], cx_ub = [2, - 1, 2],
      cx_p1 = [- 1, - 1], cx_p2 = [- 1, - 1], cx_gDiv_p1 = (\<lambda>i. 0)(0 := 0),
      cx_gDiv_p2 = (\<lambda>i. 0)(0 := 0), cx_g = 0, cx_pickG = 1, cx_draws = 2\<rparr> =
   Some \<lparr>cx_sc = [1, 1], cx_scSizeGroup = [0, 2, 0], cx_vEle = [- 1, - 1], cx_ub = [2, - 1, - 1],
      cx_p1 = [- 1, - 1], cx_p2 = [- 1, - 1], cx_gDiv_p1 = (\<lambda>i. 0)(0 := 0),
      cx_gDiv_p2 = (\<lambda>i. 0)(0 := 0), cx_g = 0, cx_pickG = 2, cx_draws = 4\<rparr>"
  by (simp add: CX_iter_def CX_select_def Let_def pick_example upt2 upt3 numeral_2_eq_2)

lemma iter_example3:
  "CX_iter (\<lambda>k. Suc 0) 32767 2 3 DM_p1 DM_p2
     \<lparr>cx_sc = [1, 1], cx_scSizeGroup = [0, 2, 0], cx_vEle = [- 1, - 1], cx_ub = [2, - 1, - 1],
      cx_p1 = [- 1, - 1], cx_p2 = [- 1, - 1], cx_gDiv_p1 = (\<lambda>i. 0)(0 := 0),
      cx_gDiv_p2 = (\<lambda>i. 0)(0 := 0), cx_g = 0, cx_pickG = 2, cx_draws = 4\<rparr> =
   Some \<lparr>cx_sc = [1, 1], cx_scSizeGroup = [0, 2, 0], cx_vEle = [- 1, - 1], cx_ub = [- 1, - 1, - 1],
      cx_p1 = [- 1, - 1], cx_p2 = [- 1, - 1], cx_gDiv_p1 = (\<lambda>i. 0)(0 := 0),
      cx_gDiv_p2 = (\<lambda>i. 0)(0 := 0), cx_g = 0, cx_pickG = 0, cx_draws = 6\<rparr>"
  by (simp add: CX_iter_def CX_select_def Let_def pick_example upt2 upt3 numeral_2_eq_2)

lemma cyc_scan_numeral:
  "cyc_scan (numeral n) stop m i =
     (let i' = (i + 1) mod m in if stop i' then Some i' else cyc_scan (pred_numeral n) stop m i')"
  by (simp add: numeral_eq_Suc)

lemma release_example:
  "CX_release (\<lambda>k. Suc 0) 2 3 [1, 0, - 1] 0 ([1, 1], [- 1, - 1], [0, 2, 0], [0, 1, 1], - 1, 6) = None"
  by (subst CX_release.simps) (simp add: upt2 Let_def cyc_scan_numeral)

lemma repair_example:
  "CX_repair (\<lambda>k. Suc 0) 2 3 [1, 0, - 1] [2, 2, 2] [1, 1] [- 1, - 1] [0, 2, 0] 6 = None"
  by (simp add: CX_repair_def Let_def upt2 upt3 release_example)

lemma CX_phase1_3:
  "CX_phase1 3 rnd RAND_MAX N K DM_p1 DM_p2 s =
     (case CX_iter rnd RAND_MAX N K DM_p1 DM_p2 s of
        None \<Rightarrow> None
      | Some s1 \<Rightarrow>
          (case CX_iter rnd RAND_MAX N K DM_p1 DM_p2 s1 of
             None \<Rightarrow> None
           | Some s2 \<Rightarrow> CX_iter rnd RAND_MAX N K DM_p1 DM_p2 s2))"
  by (simp add: numeral_3_eq_3 split: option.splits)

lemma replicate_example: "replicate 2 x = [x, x]" "replicate 3 x = [x, x, x]"
  by (simp_all add: numeral_2_eq_2 numeral_3_eq_3)

lemma feasible_example3: "feasible 2 3 [1, 0, - 1] [2, 2, 2] [0, 0] [2, 0, 0]"
  by (simp add: feasible_def less_Suc_eq eval_nat_numeral all_conj_distrib imp_disjL)


subsection \<open>The child of two feasible parents\<close>

text \<open>
  Claim C1, amended. The claim reads: for every two parents that each satisfy the group
  bounds, the child written into \<^verbatim>\<open>sc\<close> and \<^verbatim>\<open>scSizeGroup\<close> assigns every element to exactly
  one group, and every final size lies within \<open>[LB[g], UB[g]]\<close>. This holds on instances
  whose lower bounds are non-negative and whose \<open>N\<close> is below the sentinel \<open>999999\<close> of the
  shortfall search: for every sequence of \<^verbatim>\<open>rand()\<close> values and whatever the locals \<^verbatim>\<open>g\<close>
  and \<^verbatim>\<open>pickG\<close> hold at entry, \<^verbatim>\<open>Crossover\<close> returns, every element of the child is in one
  group of \<open>[0, K)\<close>, \<^verbatim>\<open>scSizeGroup\<close> counts the members of each group, and each count lies
  within its bounds. It does not hold for every instance with \<open>sum(LB) \<le> N \<le> sum(UB)\<close>: with
  a negative lower bound an empty child group counts as above its lower bound, the loop
  \<^verbatim>\<open>while (count < sumLB)\<close> may pick it, and \<^verbatim>\<open>rand() % lengthSE\<close> divides by zero (the
  counterexample below: \<open>N = 2\<close>, \<open>K = 3\<close>, \<open>LB = [1, 0, -1]\<close>, \<open>UB = [2, 2, 2]\<close>, both parents
  \<open>[0, 0]\<close>, \<^verbatim>\<open>rand()\<close> always 1).
\<close>

theorem C1_crossover_child_feasible:
  assumes p1: "feasible N K LB UB partition1 SizeG1"
    and p2: "feasible N K LB UB partition2 SizeG2"
    and LB0: "\<forall>g<K. 0 \<le> LB ! g" and Nb: "N < 999999"
  shows "\<exists>sc S. Crossover rnd RAND_MAX N K D LB UB g0 pickG0 partition1 partition2 = Some (sc, S) \<and>
                child_ok N K LB UB sc S"
proof -
  from feasible_bounds [OF p1]
  have LU: "\<forall>j<K. LB ! j \<le> UB ! j" and sLB: "(\<Sum>j<K. LB ! j) \<le> int N"
    and sUB: "int N \<le> (\<Sum>j<K. UB ! j)" by simp_all
  have UB0: "\<forall>j<K. 0 \<le> UB ! j"
  proof (intro allI impI)
    fix j assume "j < K"
    with LB0 LU have "0 \<le> LB ! j" "LB ! j \<le> UB ! j" by simp_all
    then show "0 \<le> UB ! j" by simp
  qed
  define DM_p1 where "DM_p1 = fst (Build_Delta_Matrix N D partition1)"
  define DM_p2 where "DM_p2 = fst (Build_Delta_Matrix N D partition2)"
  define s0 where
    "s0 = \<lparr>cx_sc = replicate N (- 1), cx_scSizeGroup = replicate K 0,
           cx_vEle = map int [0..<N], cx_ub = map (\<lambda>i. UB ! i) [0..<K],
           cx_p1 = map (\<lambda>i. int (partition1 ! i)) [0..<N],
           cx_p2 = map (\<lambda>i. int (partition2 ! i)) [0..<N],
           cx_gDiv_p1 = Build_GroupDiv_For_Crossover N D partition1,
           cx_gDiv_p2 = Build_GroupDiv_For_Crossover N D partition2,
           cx_g = g0, cx_pickG = pickG0, cx_draws = 0\<rparr>"
  have i0: "CX_inv N K UB 0 s0" unfolding s0_def by (rule CX_init_inv [OF UB0])
  have "0 + K = K" by simp
  from CX_phase1_ok [OF UB0 Nb i0 this, of rnd RAND_MAX DM_p1 DM_p2]
  obtain s1 where s1: "CX_phase1 K rnd RAND_MAX N K DM_p1 DM_p2 s0 = Some s1"
    "CX_inv N K UB K s1" by blast
  from s1(2) have wf: "cx_wf N K (cx_sc s1) (cx_vEle s1) (cx_scSizeGroup s1)"
    and ur: "\<forall>j<K. if cx_ub s1 ! j = - 1 then cx_scSizeGroup s1 ! j \<le> UB ! j
                   else cx_ub s1 ! j = UB ! j \<and> cx_scSizeGroup s1 ! j = 0"
    by (simp_all add: CX_inv_def)
  have ub: "\<forall>j<K. cx_scSizeGroup s1 ! j \<le> UB ! j"
  proof (intro allI impI)
    fix j assume j: "j < K"
    show "cx_scSizeGroup s1 ! j \<le> UB ! j"
    proof (cases "cx_ub s1 ! j = - 1")
      case True
      with ur j show ?thesis by auto
    next
      case False
      with ur j have "cx_scSizeGroup s1 ! j = 0" by auto
      with UB0 j show ?thesis by simp
    qed
  qed
  from CX_repair_ok [OF wf ub LB0 LU sLB sUB, of rnd "cx_draws s1"]
  obtain sc S where r: "CX_repair rnd N K LB UB (cx_sc s1) (cx_vEle s1) (cx_scSizeGroup s1)
                          (cx_draws s1) = Some (sc, S)" "child_ok N K LB UB sc S" by blast
  have "Crossover rnd RAND_MAX N K D LB UB g0 pickG0 partition1 partition2 = Some (sc, S)"
    unfolding Crossover_def Let_def DM_p1_def [symmetric] DM_p2_def [symmetric]
      s0_def [symmetric] using s1(1) r(1) by simp
  with r(2) show ?thesis by blast
qed

theorem C1_crossover_child_feasible_witness:
  "\<exists>sc S. Crossover (\<lambda>k. 3 * k + 1) 32767 4 2 (\<lambda>i j. if i = j then 0 else 1) [1, 1] [3, 3]
             0 0 [0, 0, 1, 1] [0, 1, 0, 1] = Some (sc, S) \<and>
          child_ok 4 2 [1, 1] [3, 3] sc S"
proof (rule C1_crossover_child_feasible [OF feasible_example4a feasible_example4b])
  show "\<forall>g<2. 0 \<le> [1, 1 :: int] ! g"
    by (simp add: less_Suc_eq eval_nat_numeral all_conj_distrib imp_disjL)
  show "(4 :: nat) < 999999" by simp
qed

theorem C1_negative_lower_bound_counterexample:
  "feasible 2 3 [1, 0, - 1] [2, 2, 2] [0, 0] [2, 0, 0] \<and>
   Crossover (\<lambda>k. 1) 32767 2 3 example_D [1, 0, - 1] [2, 2, 2] 0 0 [0, 0] [0, 0] = None"
  by (simp add: feasible_example3 Crossover_def Let_def replicate_example upt2 upt3
      gDiv_example CX_phase1_3 iter_example1 iter_example2 iter_example3 repair_example)

end
